theory Spec2Isabelle
  imports Complex_Main "HOL-Library.Sublist"
begin

section \<open>Numeric values\<close>

text \<open>
  The arrays of \<^verbatim>\<open>post_process.py\<close> hold numpy floats. A finite value is modelled by
  the real number it stands for, so sums, products and comparisons of finite values are
  the exact ones; rounding is modelled where a result depends on it (see \<open>f32\<close>
  below). What numpy does where a real
  number has no answer is kept: a division by zero does not raise, it yields NaN (0 / 0)
  or an infinity, and every ordering comparison with NaN is false. Zero carries no sign
  in the model; a non-zero value over zero takes the sign of the numerator.
\<close>

datatype npfloat = Fin real | PInf | NInf | NaN

fun np_neg :: "npfloat \<Rightarrow> npfloat" where
  "np_neg (Fin a) = Fin (- a)"
| "np_neg PInf = NInf"
| "np_neg NInf = PInf"
| "np_neg NaN = NaN"

text \<open>The sign of a value that is not NaN: 1, 0 or -1.\<close>

fun np_sign :: "npfloat \<Rightarrow> real" where
  "np_sign (Fin a) = sgn a"
| "np_sign PInf = 1"
| "np_sign NInf = - 1"
| "np_sign NaN = 0"

definition inf_of_sign :: "real \<Rightarrow> npfloat" where
  "inf_of_sign s = (if s = 0 then NaN else if 0 < s then PInf else NInf)"

fun np_mul :: "npfloat \<Rightarrow> npfloat \<Rightarrow> npfloat" where
  "np_mul NaN b = NaN"
| "np_mul a NaN = NaN"
| "np_mul (Fin a) (Fin b) = Fin (a * b)"
| "np_mul a b = inf_of_sign (np_sign a * np_sign b)"

fun np_divide :: "npfloat \<Rightarrow> npfloat \<Rightarrow> npfloat" where
  "np_divide NaN b = NaN"
| "np_divide a NaN = NaN"
| "np_divide (Fin a) (Fin b) = (if b \<noteq> 0 then Fin (a / b) else inf_of_sign (sgn a))"
| "np_divide (Fin a) b = Fin 0"
| "np_divide a (Fin b) = inf_of_sign (np_sign a * (if b < 0 then - 1 else 1))"
| "np_divide a b = NaN"

text \<open>
  The exact exponential. It is positive on every finite argument, while the exponential
  of a float type returns 0 on a large negative one; \<open>np_exp_with\<close> below takes the
  exponential of the type as a parameter.
\<close>

fun np_exp :: "npfloat \<Rightarrow> npfloat" where
  "np_exp (Fin a) = Fin (exp a)"
| "np_exp PInf = PInf"
| "np_exp NInf = Fin 0"
| "np_exp NaN = NaN"

fun np_le :: "npfloat \<Rightarrow> npfloat \<Rightarrow> bool" where
  "np_le NaN b = False"
| "np_le a NaN = False"
| "np_le (Fin a) (Fin b) = (a \<le> b)"
| "np_le NInf b = True"
| "np_le a PInf = True"
| "np_le a b = False"

definition np_ge :: "npfloat \<Rightarrow> npfloat \<Rightarrow> bool" where
  "np_ge a b = np_le b a"

text \<open>
  Where the code stores a value in a float32 array, or compares a float32 array with a
  Python float, the value is rounded to float32: to the nearest number of 24
  significant bits, ties going to the even significand. \<open>f32\<close> is that rounding for
  values in the normal range (overflow and subnormal numbers are left out).
\<close>

definition round_ties_even :: "real \<Rightarrow> int" where
  "round_ties_even q =
     (let f = \<lfloor>q\<rfloor>
      in if q - of_int f < 1 / 2 then f
         else if q - of_int f > 1 / 2 then f + 1
         else if even f then f else f + 1)"

definition f32 :: "real \<Rightarrow> real" where
  "f32 x =
     (if x = 0 then 0
      else let e = \<lfloor>log 2 \<bar>x\<bar>\<rfloor> - 23
           in of_int (round_ties_even (x / 2 powr of_int e)) * 2 powr of_int e)"

fun np_f32 :: "npfloat \<Rightarrow> npfloat" where
  "np_f32 (Fin a) = Fin (f32 a)"
| "np_f32 a = a"

section \<open>Detections\<close>

text \<open>
  A box is \<open>(x1, y1, x2, y2)\<close>; a row of a detection array is \<open>(score, box)\<close>, the
  five columns of \<^verbatim>\<open>dets\<close> in their order.
\<close>

type_synonym box = "real \<times> real \<times> real \<times> real"
type_synonym det = "real \<times> box"

definition bx1 :: "box \<Rightarrow> real" where "bx1 b = fst b"
definition by1 :: "box \<Rightarrow> real" where "by1 b = fst (snd b)"
definition bx2 :: "box \<Rightarrow> real" where "bx2 b = fst (snd (snd b))"
definition by2 :: "box \<Rightarrow> real" where "by2 b = snd (snd (snd b))"

section \<open>Greedy NMS\<close>

text \<open>\<^verbatim>\<open>areas = (x2 - x1 + 1) * (y2 - y1 + 1)\<close>, one entry of it.\<close>

definition area :: "box \<Rightarrow> real" where
  "area b = (bx2 b - bx1 b + 1) * (by2 b - by1 b + 1)"

text \<open>The intersection of box \<open>i\<close> with box \<open>j\<close>, lines 83 to 89 of \<^verbatim>\<open>nms\<close>.\<close>

definition inter :: "box \<Rightarrow> box \<Rightarrow> real" where
  "inter bi bj =
     (let xx1 = max (bx1 bi) (bx1 bj);
          yy1 = max (by1 bi) (by1 bj);
          xx2 = min (bx2 bi) (bx2 bj);
          yy2 = min (by2 bi) (by2 bj);
          w = max 0 (xx2 - xx1 + 1);
          h = max 0 (yy2 - yy1 + 1)
      in w * h)"

text \<open>\<^verbatim>\<open>ovr = inter / (iarea + areas[j] - inter)\<close>, a numpy scalar division.\<close>

definition nms_ovr :: "box \<Rightarrow> box \<Rightarrow> npfloat" where
  "nms_ovr bi bj = np_divide (Fin (inter bi bj)) (Fin (area bi + area bj - inter bi bj))"

text \<open>
  \<^verbatim>\<open>order = scores.argsort()[::-1]\<close>: the indices by ascending score, reversed. The
  default sort of numpy is not stable, so on a longer array equal scores may come in
  another order than here, where they are taken in the order a stable sort leaves them.
  No result below depends on the order of equal scores.
\<close>

definition argsort :: "real list \<Rightarrow> nat list" where
  "argsort scores = sort_key (\<lambda>i. scores ! i) [0..<length scores]"

text \<open>The inner loop over \<^verbatim>\<open>_j\<close>: \<open>js\<close> are the entries of \<open>order\<close> after position \<^verbatim>\<open>_i\<close>.\<close>

fun nms_inner :: "box list \<Rightarrow> real \<Rightarrow> nat \<Rightarrow> nat list \<Rightarrow> bool list \<Rightarrow> bool list" where
  "nms_inner boxes thresh i [] suppressed = suppressed"
| "nms_inner boxes thresh i (j # js) suppressed =
     (if suppressed ! j then nms_inner boxes thresh i js suppressed
      else if np_ge (nms_ovr (boxes ! i) (boxes ! j)) (Fin thresh)
           then nms_inner boxes thresh i js (suppressed[j := True])
           else nms_inner boxes thresh i js suppressed)"

text \<open>The outer loop over \<^verbatim>\<open>_i\<close>: \<open>rest\<close> is \<open>order\<close> from position \<^verbatim>\<open>_i\<close> on.\<close>

fun nms_outer :: "box list \<Rightarrow> real \<Rightarrow> nat list \<Rightarrow> bool list \<Rightarrow> bool list" where
  "nms_outer boxes thresh [] suppressed = suppressed"
| "nms_outer boxes thresh (i # rest) suppressed =
     (if suppressed ! i then nms_outer boxes thresh rest suppressed
      else nms_outer boxes thresh rest (nms_inner boxes thresh i rest suppressed))"

definition nms :: "det list \<Rightarrow> real \<Rightarrow> det list" where
  "nms dets thresh =
     (if length dets = 0 then []
      else let scores = map fst dets;
               boxes = map snd dets;
               order = rev (argsort scores);
               ndets = length dets;
               suppressed = nms_outer boxes thresh order (replicate ndets False);
               keep = filter (\<lambda>k. \<not> suppressed ! k) [0..<ndets]
           in map (\<lambda>k. dets ! k) keep)"

section \<open>Soft-NMS\<close>

text \<open>
  The working array of \<^verbatim>\<open>soft_nms\<close>: its score column is rewritten in every iteration
  with the product of a score and a weight, so a score is an \<open>npfloat\<close>. The loop is
  given twice: first in exact arithmetic (\<open>soft_nms\<close>), then with the rounding of the
  array's float type and its exponential as parameters (\<open>soft_nms_with\<close>), of which the
  first is the instance without rounding.
\<close>

type_synonym sdet = "npfloat \<times> box"

text \<open>
  \<^verbatim>\<open>np.argmax\<close>: the scan keeps the running maximum \<open>mp\<close> and its index, replaces it
  by an entry that is not \<open>\<le> mp\<close>, and stops at the first NaN. The first of several
  equal maxima wins.
\<close>

fun argmax_scan :: "npfloat list \<Rightarrow> nat \<Rightarrow> npfloat \<Rightarrow> nat \<Rightarrow> nat" where
  "argmax_scan [] i mp max_ind = max_ind"
| "argmax_scan (x # xs) i mp max_ind =
     (if mp = NaN then max_ind
      else if \<not> np_le x mp then argmax_scan xs (Suc i) x i
      else argmax_scan xs (Suc i) mp max_ind)"

text \<open>The loop of \<^verbatim>\<open>soft_nms\<close> calls it on a non-empty column only.\<close>

fun np_argmax :: "npfloat list \<Rightarrow> nat" where
  "np_argmax [] = 0"
| "np_argmax (x # xs) = argmax_scan xs 1 x 0"

text \<open>\<^verbatim>\<open>ovr = inter / (areas + areas[maxpos] - inter)\<close>, the entry of box \<open>b\<close> against the picked box \<open>bt\<close>.\<close>

definition soft_ovr :: "box \<Rightarrow> box \<Rightarrow> npfloat" where
  "soft_ovr bt b = np_divide (Fin (inter bt b)) (Fin (area b + area bt - inter bt b))"

text \<open>\<^verbatim>\<open>weight = np.exp(-(ovr * ovr) / sigma)\<close>, one entry.\<close>

definition soft_weight :: "real \<Rightarrow> npfloat \<Rightarrow> npfloat" where
  "soft_weight sigma ovr = np_exp (np_divide (np_neg (np_mul ovr ovr)) (Fin sigma))"

text \<open>
  One pass through the body of the \<^verbatim>\<open>while\<close> loop: the picked row (copied before its
  score is overwritten by \<open>-1\<close>) and the rows that stay.
\<close>

definition soft_nms_step :: "real \<Rightarrow> real \<Rightarrow> sdet list \<Rightarrow> sdet \<times> sdet list" where
  "soft_nms_step sigma thres dets =
     (let maxpos = np_argmax (map fst dets);
          picked = dets ! maxpos;
          bt = snd picked;
          scores = (map fst dets)[maxpos := Fin (- 1)];
          boxes = map snd dets;
          ovr = map (soft_ovr bt) boxes;
          weight = map (soft_weight sigma) ovr;
          scores' = map2 np_mul scores weight;
          dets' = zip scores' boxes
      in (picked, filter (\<lambda>d. np_ge (fst d) (Fin thres)) dets'))"

text \<open>
  The loop can run forever (a picked row may stay in the array); \<open>None\<close> is that case.
  \<^verbatim>\<open>soft_nms\<close> also overwrites the score column of the array it is given; the model
  has the returned array only.
\<close>

partial_function (option) soft_nms_loop ::
  "real \<Rightarrow> real \<Rightarrow> sdet list \<Rightarrow> sdet list \<Rightarrow> sdet list option" where
  "soft_nms_loop sigma thres dets dets_final =
     (if length dets > 0
      then (case soft_nms_step sigma thres dets of
              (picked, dets') \<Rightarrow> soft_nms_loop sigma thres dets' (dets_final @ [picked]))
      else Some dets_final)"

definition soft_nms :: "sdet list \<Rightarrow> real \<Rightarrow> real \<Rightarrow> sdet list option" where
  "soft_nms dets sigma thres = soft_nms_loop sigma thres dets []"

text \<open>An array of finite scores, as the caller passes it.\<close>

definition of_det :: "det \<Rightarrow> sdet" where
  "of_det d = (Fin (fst d), snd d)"

text \<open>
  The same loop with the float arithmetic of the array made explicit where a score
  depends on it. \<open>rnd\<close> rounds a real number to the float type of the array and \<open>ex\<close>
  is the \<^verbatim>\<open>np.exp\<close> of that type; it may return 0 where the exponential underflows.
  In \<^verbatim>\<open>-(ovr * ovr) / sigma\<close> and in \<^verbatim>\<open>scores >= thres\<close> the Python floats \<^verbatim>\<open>sigma\<close> and
  \<^verbatim>\<open>thres\<close> meet an array and are converted to its type; the product
  \<^verbatim>\<open>scores * weight\<close> is rounded to it. The overlaps and the argument of \<open>ex\<close> are
  computed exactly. \<^verbatim>\<open>get_nms_result\<close> passes a float32 array, for which \<open>rnd\<close> is \<open>f32\<close>.
\<close>

fun np_exp_with :: "(real \<Rightarrow> npfloat) \<Rightarrow> npfloat \<Rightarrow> npfloat" where
  "np_exp_with ex (Fin a) = ex a"
| "np_exp_with ex PInf = PInf"
| "np_exp_with ex NInf = Fin 0"
| "np_exp_with ex NaN = NaN"

fun np_mul_with :: "(real \<Rightarrow> real) \<Rightarrow> npfloat \<Rightarrow> npfloat \<Rightarrow> npfloat" where
  "np_mul_with rnd (Fin a) (Fin b) = Fin (rnd (a * b))"
| "np_mul_with rnd a b = np_mul a b"

definition soft_weight_with ::
  "(real \<Rightarrow> npfloat) \<Rightarrow> (real \<Rightarrow> real) \<Rightarrow> real \<Rightarrow> npfloat \<Rightarrow> npfloat" where
  "soft_weight_with ex rnd sigma ovr =
     np_exp_with ex (np_divide (np_neg (np_mul ovr ovr)) (Fin (rnd sigma)))"

definition soft_nms_step_with ::
  "(real \<Rightarrow> npfloat) \<Rightarrow> (real \<Rightarrow> real) \<Rightarrow> real \<Rightarrow> real \<Rightarrow> sdet list \<Rightarrow> sdet \<times> sdet list" where
  "soft_nms_step_with ex rnd sigma thres dets =
     (let maxpos = np_argmax (map fst dets);
          picked = dets ! maxpos;
          bt = snd picked;
          scores = (map fst dets)[maxpos := Fin (- 1)];
          boxes = map snd dets;
          ovr = map (soft_ovr bt) boxes;
          weight = map (soft_weight_with ex rnd sigma) ovr;
          scores' = map2 (np_mul_with rnd) scores weight;
          dets' = zip scores' boxes
      in (picked, filter (\<lambda>d. np_ge (fst d) (Fin (rnd thres))) dets'))"

partial_function (option) soft_nms_loop_with ::
  "(real \<Rightarrow> npfloat) \<Rightarrow> (real \<Rightarrow> real) \<Rightarrow> real \<Rightarrow> real \<Rightarrow> sdet list \<Rightarrow> sdet list
     \<Rightarrow> sdet list option" where
  "soft_nms_loop_with ex rnd sigma thres dets dets_final =
     (if length dets > 0
      then (case soft_nms_step_with ex rnd sigma thres dets of
              (picked, dets') \<Rightarrow> soft_nms_loop_with ex rnd sigma thres dets' (dets_final @ [picked]))
      else Some dets_final)"

definition soft_nms_with ::
  "(real \<Rightarrow> npfloat) \<Rightarrow> (real \<Rightarrow> real) \<Rightarrow> sdet list \<Rightarrow> real \<Rightarrow> real \<Rightarrow> sdet list option" where
  "soft_nms_with ex rnd dets sigma thres = soft_nms_loop_with ex rnd sigma thres dets []"

text \<open>
  An exponential for float32: infinite where the result exceeds the largest float32
  (arguments over 89), zero where it rounds to zero (arguments under -104), and the
  exact value rounded by \<open>f32\<close> in between, as a normal number also where float32 is
  subnormal.
\<close>

definition exp_f32 :: "real \<Rightarrow> npfloat" where
  "exp_f32 a = (if a < - 104 then Fin 0 else if 89 < a then PInf else Fin (f32 (exp a)))"

section \<open>Box voting\<close>

datatype error =
  ZeroDivisionError | ValueError | IndexError | KeyError | TypeError | AttributeError

definition bbox_area :: "box \<Rightarrow> real" where
  "bbox_area b = (let w = bx2 b - bx1 b + 1; h = by2 b - by1 b + 1 in w * h)"

text \<open>Entry \<open>(n, k)\<close> of \<^verbatim>\<open>overlaps\<close>: zero unless both guards pass.\<close>

definition bbox_overlap :: "box \<Rightarrow> box \<Rightarrow> npfloat" where
  "bbox_overlap xn yk =
     (let y_area = bbox_area yk;
          iw = min (bx2 xn) (bx2 yk) - max (bx1 xn) (bx1 yk) + 1
      in if iw > 0
         then (let ih = min (by2 xn) (by2 yk) - max (by1 xn) (by1 yk) + 1
               in if ih > 0
                  then (let x_area = bbox_area xn;
                            ua = x_area + y_area - iw * ih
                        in np_divide (Fin (iw * ih)) (Fin ua))
                  else Fin 0)
         else Fin 0)"

text \<open>
  The entries are stored in \<^verbatim>\<open>overlaps = np.zeros((N, K), dtype=np.float32)\<close>, so each one
  is rounded to float32 by the store, whatever the type of the boxes. The arithmetic before
  the store is exact here.
\<close>

definition bbox_overlaps :: "box list \<Rightarrow> box list \<Rightarrow> npfloat list list" where
  "bbox_overlaps x y = map (\<lambda>xn. map (\<lambda>yk. np_f32 (bbox_overlap xn yk)) y) x"

text \<open>
  \<^verbatim>\<open>np.average(boxes_to_vote, axis=0, weights=ws)\<close>: numpy raises ZeroDivisionError
  when the weights sum to zero, as they do when there is no weight at all.
\<close>

definition np_average :: "box list \<Rightarrow> real list \<Rightarrow> error + box" where
  "np_average a wgt =
     (let scl = sum_list wgt
      in if scl = 0 then Inl ZeroDivisionError
         else Inr (sum_list (map2 (\<lambda>b w. bx1 b * w) a wgt) / scl,
                   sum_list (map2 (\<lambda>b w. by1 b * w) a wgt) / scl,
                   sum_list (map2 (\<lambda>b w. bx2 b * w) a wgt) / scl,
                   sum_list (map2 (\<lambda>b w. by2 b * w) a wgt) / scl))"

text \<open>
  The loop over \<^verbatim>\<open>k\<close>: each row of \<^verbatim>\<open>top_dets\<close> with its row of overlaps. In
  \<^verbatim>\<open>top_to_all_overlaps[k] >= vote_thresh\<close> the left side is a float32 array and the right
  side a Python float, which numpy converts to the type of the array: the rows are compared
  with the threshold rounded to float32.
\<close>

fun vote_rows :: "box list \<Rightarrow> real list \<Rightarrow> real \<Rightarrow> (det \<times> npfloat list) list \<Rightarrow> error + det list" where
  "vote_rows all_boxes all_scores vote_thresh [] = Inr []"
| "vote_rows all_boxes all_scores vote_thresh ((d, overlaps_k) # rest) =
     (let inds_to_vote = filter (\<lambda>i. np_ge (overlaps_k ! i) (Fin (f32 vote_thresh))) [0..<length overlaps_k];
          boxes_to_vote = map (\<lambda>i. all_boxes ! i) inds_to_vote;
          ws = map (\<lambda>i. all_scores ! i) inds_to_vote
      in case np_average boxes_to_vote ws of
           Inl e \<Rightarrow> Inl e
         | Inr voted \<Rightarrow>
             (case vote_rows all_boxes all_scores vote_thresh rest of
                Inl e \<Rightarrow> Inl e
              | Inr ds \<Rightarrow> Inr ((fst d, voted) # ds)))"

definition box_voting :: "det list \<Rightarrow> det list \<Rightarrow> real \<Rightarrow> error + det list" where
  "box_voting nms_dets dets vote_thresh =
     (let top_boxes = map snd nms_dets;
          all_boxes = map snd dets;
          all_scores = map fst dets;
          top_to_all_overlaps = bbox_overlaps top_boxes all_boxes
      in vote_rows all_boxes all_scores vote_thresh (zip nms_dets top_to_all_overlaps))"

section \<open>The cap on detections per image\<close>

text \<open>
  A row of \<^verbatim>\<open>cls_boxes[j]\<close> is \<open>(label, score, box)\<close>. The function below is
  \<^verbatim>\<open>get_nms_result\<close> from the comment "Limit to max_per_image detections over all
  classes" to its return; \<open>cls_boxes\<close> is the list
  \<^verbatim>\<open>[cls_boxes[j] for j in range(start_idx, num_classes)]\<close> that the loop over the
  classes has built.
\<close>

type_synonym ldet = "nat \<times> det"

definition score_of :: "ldet \<Rightarrow> real" where
  "score_of r = fst (snd r)"

text \<open>Python's \<^verbatim>\<open>xs[i]\<close>: a negative index counts from the end.\<close>

definition py_index :: "'a list \<Rightarrow> int \<Rightarrow> error + 'a" where
  "py_index xs i =
     (let n = int (length xs);
          j = (if i < 0 then i + n else i)
      in if 0 \<le> j \<and> j < n then Inr (xs ! nat j) else Inl IndexError)"

text \<open>\<^verbatim>\<open>np.hstack\<close> and \<^verbatim>\<open>np.vstack\<close> raise ValueError on an empty list of arrays.\<close>

definition get_nms_result_cap :: "int \<Rightarrow> ldet list list \<Rightarrow> error + ldet list" where
  "get_nms_result_cap detections_per_im cls_boxes =
     (if cls_boxes = [] then Inl ValueError
      else let image_scores = concat (map (map score_of) cls_boxes)
           in if int (length image_scores) > detections_per_im
              then (case py_index (sort image_scores) (- detections_per_im) of
                      Inl e \<Rightarrow> Inl e
                    | Inr image_thresh \<Rightarrow>
                        Inr (concat (map (filter (\<lambda>r. score_of r \<ge> image_thresh)) cls_boxes)))
              else Inr (concat cls_boxes))"

section \<open>Arrays and fetched results\<close>

text \<open>
  An array with its shape and its elements in row-major order. A fetched result is a
  dict from a name to a pair \<open>(array, lod)\<close>; the array may be \<^verbatim>\<open>None\<close>. The dict is
  an association list in insertion order, its keys distinct.
\<close>

record ndarray =
  shape :: "nat list"
  data :: "real list"

type_synonym lod = "nat list list"
type_synonym fetch = "(string \<times> (ndarray option \<times> lod)) list"

definition np_zeros :: "nat list \<Rightarrow> ndarray" where
  "np_zeros shp = \<lparr>shape = shp, data = replicate (prod_list shp) 0\<rparr>"

text \<open>\<^verbatim>\<open>sub in s\<close> on strings.\<close>

fun contains :: "string \<Rightarrow> string \<Rightarrow> bool" where
  "contains sub [] = (sub = [])"
| "contains sub (c # cs) = (prefix sub (c # cs) \<or> contains sub cs)"

section \<open>Merging masks over scales\<close>

fun chunks :: "nat \<Rightarrow> 'a list \<Rightarrow> 'a list list" where
  "chunks n xs = (if n = 0 \<or> xs = [] then [] else take n xs # chunks n (drop n xs))"

text \<open>\<^verbatim>\<open>masks[:, :, :, ::-1]\<close>: every run along the last axis reversed.\<close>

definition flip_last :: "ndarray \<Rightarrow> ndarray" where
  "flip_last a = a\<lparr>data := concat (map rev (chunks (last (shape a)) (data a)))\<rparr>"

text \<open>The loop over \<^verbatim>\<open>result.keys()\<close> that fills \<^verbatim>\<open>mask_list\<close>.\<close>

fun collect_masks :: "nat \<Rightarrow> fetch \<Rightarrow> error + ndarray list" where
  "collect_masks M [] = Inr []"
| "collect_masks M ((k, v) # rest) =
     (if contains ''mask'' k
      then (case fst v of
              None \<Rightarrow> Inl AttributeError
            | Some masks \<Rightarrow>
                (let entry = (if length (shape masks) \<noteq> 4 then np_zeros [0, M, M]
                              else if contains ''flip'' k then flip_last masks
                              else masks)
                 in case collect_masks M rest of
                      Inl e \<Rightarrow> Inl e
                    | Inr mask_list \<Rightarrow> Inr (entry # mask_list)))
      else collect_masks M rest)"

text \<open>
  \<^verbatim>\<open>np.mean(mask_list, axis=0)\<close> of arrays of one shape is their element-wise mean.
  Arrays of different shapes do not stack into an array: numpy raises ValueError, from
  release 1.24 on for every such list and in every release when the shapes do not
  broadcast against each other. What the earlier releases do with shapes that broadcast
  (they reduce an array of objects) is not modelled; the results below use lists of one
  shape and a list whose shapes do not broadcast.
\<close>

definition np_mean_axis0 :: "ndarray \<Rightarrow> ndarray list \<Rightarrow> error + ndarray" where
  "np_mean_axis0 a rest =
     (if \<forall>b \<in> set rest. shape b = shape a
      then Inr \<lparr>shape = shape a,
                data = map (\<lambda>i. sum_list (map (\<lambda>b. data b ! i) (a # rest)) / real (length (a # rest)))
                           [0..<length (data a)]\<rparr>
      else Inl ValueError)"

text \<open>\<^verbatim>\<open>len(a)\<close> of an array; a value without dimensions has no length.\<close>

definition np_len :: "ndarray \<Rightarrow> error + nat" where
  "np_len a = (case shape a of [] \<Rightarrow> Inl TypeError | n # _ \<Rightarrow> Inr n)"

text \<open>
  \<open>M\<close> is \<^verbatim>\<open>cfg.FPNRoIAlign['mask_resolution']\<close>. With no mask key at all the mean of
  the empty list is a bare NaN, and taking its length raises TypeError.
\<close>

definition mstest_mask_post_process :: "fetch \<Rightarrow> nat \<Rightarrow> error + (ndarray \<times> lod)" where
  "mstest_mask_post_process result M =
     (case map_of result ''im_shape'' of
        None \<Rightarrow> Inl KeyError
      | Some im_shape \<Rightarrow>
          (case collect_masks M result of
             Inl e \<Rightarrow> Inl e
           | Inr [] \<Rightarrow> Inl TypeError
           | Inr (a # rest) \<Rightarrow>
               (case np_mean_axis0 a rest of
                  Inl e \<Rightarrow> Inl e
                | Inr mask_pred \<Rightarrow>
                    (case np_len mask_pred of
                       Inl e \<Rightarrow> Inl e
                     | Inr n \<Rightarrow> Inr (mask_pred, [[n]])))))"

section \<open>Encoding masks\<close>

text \<open>
  \<^verbatim>\<open>mask_encode\<close> up to its loop over the samples, after its two imports. The loop (it calls
  \<^verbatim>\<open>expand_boxes\<close>, \<^verbatim>\<open>cv2.resize\<close> and the run-length encoder) is the parameter
  \<open>encode_samples\<close>, given everything the loop reads.
\<close>

definition mask_encode ::
  "(real \<Rightarrow> ndarray \<Rightarrow> ndarray option \<Rightarrow> nat list \<Rightarrow> ndarray option \<Rightarrow> int \<Rightarrow> real \<Rightarrow> error + 'segm list)
   \<Rightarrow> fetch \<Rightarrow> int \<Rightarrow> real \<Rightarrow> error + 'segm list" where
  "mask_encode encode_samples results resolution thresh_binarize =
     (if resolution = 0 then Inl ZeroDivisionError
      else let scale = (real_of_int resolution + 2) / real_of_int resolution
      in case map_of results ''bbox'' of
           None \<Rightarrow> Inl KeyError
         | Some (bboxes, _) \<Rightarrow>
      (case map_of results ''mask'' of
           None \<Rightarrow> Inl KeyError
         | Some (masks, mask_lod) \<Rightarrow>
      (case mask_lod of
           [] \<Rightarrow> Inl IndexError
         | lengths # _ \<Rightarrow>
      (case map_of results ''im_shape'' of
           None \<Rightarrow> Inl KeyError
         | Some (im_shapes, _) \<Rightarrow>
      (case bboxes of
           None \<Rightarrow> Inl AttributeError
         | Some b \<Rightarrow>
             if shape b = [1, 1] then Inr []
             else (case np_len b of
                     Inl e \<Rightarrow> Inl e
                   | Inr n \<Rightarrow>
                       if n = 0 then Inr []
                       else encode_samples scale b masks lengths im_shapes resolution
                              thresh_binarize))))))"

section \<open>Mirroring boxes\<close>

text \<open>
  The result of \<^verbatim>\<open>box_flip\<close> is compared bit for bit, so its arithmetic is modelled
  with its rounding: \<open>rnd\<close> below is applied to the result of every subtraction, and
  for the float32 arrays of the callers it is \<open>f32\<close>.
\<close>








section \<open>Facts about boxes and overlaps\<close>

lemmas box_sel = bx1_def by1_def bx2_def by2_def

lemma inter_nonneg: "0 \<le> inter bi bj"
  by (simp add: inter_def Let_def)

lemma inter_le_area:
  assumes "0 < inter bi bj"
  shows "inter bi bj \<le> area bi" and "inter bi bj \<le> area bj"
proof -
  define w where "w = min (bx2 bi) (bx2 bj) - max (bx1 bi) (bx1 bj) + 1"
  define h where "h = min (by2 bi) (by2 bj) - max (by1 bi) (by1 bj) + 1"
  have i: "inter bi bj = max 0 w * max 0 h"
    by (simp add: inter_def Let_def w_def h_def)
  have pos: "0 < w" "0 < h"
    using assms unfolding i by (auto simp: max_def zero_less_mult_iff split: if_splits)
  have wi: "w \<le> bx2 bi - bx1 bi + 1" "w \<le> bx2 bj - bx1 bj + 1"
    unfolding w_def by auto
  have hi: "h \<le> by2 bi - by1 bi + 1" "h \<le> by2 bj - by1 bj + 1"
    unfolding h_def by auto
  have eq: "inter bi bj = w * h" using pos unfolding i by simp
  show "inter bi bj \<le> area bi"
    unfolding eq area_def using pos wi(1) hi(1) by (intro mult_mono) auto
  show "inter bi bj \<le> area bj"
    unfolding eq area_def using pos wi(2) hi(2) by (intro mult_mono) auto
qed

text \<open>A vanishing denominator leaves no intersection: the quotient is 0 / 0.\<close>

lemma zero_den_zero_inter:
  assumes "area bi + area bj - inter bi bj = 0"
  shows "inter bi bj = 0"
proof (rule ccontr)
  assume "inter bi bj \<noteq> 0"
  then have p: "0 < inter bi bj" using inter_nonneg[of bi bj] by simp
  from inter_le_area[OF p] p assms show False by linarith
qed

lemma bbox_area_eq: "bbox_area b = area b"
  by (simp add: bbox_area_def area_def Let_def)

lemma bbox_overlap_cases:
  fixes xn yk :: box
  defines "iw \<equiv> min (bx2 xn) (bx2 yk) - max (bx1 xn) (bx1 yk) + 1"
  defines "ih \<equiv> min (by2 xn) (by2 yk) - max (by1 xn) (by1 yk) + 1"
  shows "bbox_overlap xn yk =
     (if 0 < iw \<and> 0 < ih then Fin (iw * ih / (area xn + area yk - iw * ih)) else Fin 0)"
    and "0 < iw \<and> 0 < ih \<Longrightarrow> iw * ih \<le> area xn \<and> iw * ih \<le> area yk \<and> 0 < iw * ih"
proof -
  have mono: "iw * ih \<le> area xn \<and> iw * ih \<le> area yk \<and> 0 < iw * ih" if p: "0 < iw \<and> 0 < ih"
  proof -
    have wi: "iw \<le> bx2 xn - bx1 xn + 1" "iw \<le> bx2 yk - bx1 yk + 1"
      unfolding iw_def by auto
    have hi: "ih \<le> by2 xn - by1 xn + 1" "ih \<le> by2 yk - by1 yk + 1"
      unfolding ih_def by auto
    have a: "iw * ih \<le> area xn"
      unfolding area_def using p wi(1) hi(1) by (intro mult_mono) auto
    have b: "iw * ih \<le> area yk"
      unfolding area_def using p wi(2) hi(2) by (intro mult_mono) auto
    from a b p show ?thesis by simp
  qed
  then show "0 < iw \<and> 0 < ih \<Longrightarrow> iw * ih \<le> area xn \<and> iw * ih \<le> area yk \<and> 0 < iw * ih" .
  show "bbox_overlap xn yk =
     (if 0 < iw \<and> 0 < ih then Fin (iw * ih / (area xn + area yk - iw * ih)) else Fin 0)"
  proof (cases "0 < iw \<and> 0 < ih")
    case True
    from mono[OF True] have "area xn + area yk - iw * ih \<noteq> 0" by linarith
    then show ?thesis using True
      by (simp add: bbox_overlap_def Let_def bbox_area_eq iw_def[symmetric] ih_def[symmetric])
  next
    case False
    then show ?thesis
      by (auto simp add: bbox_overlap_def Let_def bbox_area_eq iw_def[symmetric] ih_def[symmetric])
  qed
qed

text \<open>Every entry of \<^verbatim>\<open>overlaps\<close> is a number between 0 and 1.\<close>

lemma bbox_overlap_range: "\<exists>r. bbox_overlap xn yk = Fin r \<and> 0 \<le> r \<and> r \<le> 1"
proof -
  define iw where "iw = min (bx2 xn) (bx2 yk) - max (bx1 xn) (bx1 yk) + 1"
  define ih where "ih = min (by2 xn) (by2 yk) - max (by1 xn) (by1 yk) + 1"
  note c = bbox_overlap_cases[of xn yk, folded iw_def ih_def]
  show ?thesis
  proof (cases "0 < iw \<and> 0 < ih")
    case True
    from c(2)[OF True] have b: "iw * ih \<le> area xn" "iw * ih \<le> area yk" "0 < iw * ih" by auto
    then have d: "0 < area xn + area yk - iw * ih" "iw * ih \<le> area xn + area yk - iw * ih"
      by linarith+
    have "0 \<le> iw * ih / (area xn + area yk - iw * ih)" using b d by simp
    moreover have "iw * ih / (area xn + area yk - iw * ih) \<le> 1" using d by simp
    ultimately show ?thesis using c(1) True by simp
  next
    case False
    then show ?thesis using c(1) by auto
  qed
qed

section \<open>Greedy NMS: the order of the output\<close>

lemma subseq_index_filter:
  "subseq (map ((!) xs) (filter P [0..<length xs])) xs"
proof (induction xs rule: rev_induct)
  case Nil
  show ?case by simp
next
  case (snoc x xs)
  let ?old = "map ((!) xs) (filter P [0..<length xs])"
  have same: "map ((!) (xs @ [x])) (filter P [0..<length xs]) = ?old"
    by (simp add: nth_append)
  have split: "map ((!) (xs @ [x])) (filter P [0..<length (xs @ [x])])
        = ?old @ (if P (length xs) then [x] else [])"
    using same by simp
  have "subseq (?old @ (if P (length xs) then [x] else [])) (xs @ [x])"
    using snoc.IH by (auto intro: list_emb_append_mono list_emb_append2)
  then show ?case unfolding split .
qed

text \<open>
  C2, as the code has it. \<^verbatim>\<open>nms\<close> returns \<^verbatim>\<open>dets[keep, :]\<close> with \<^verbatim>\<open>keep\<close> the
  indices of the rows that are not suppressed, in ascending order: the survivors come
  in the order of the input, whatever their scores.
\<close>

theorem nms_keeps_input_order: "subseq (nms dets thresh) dets"
  unfolding nms_def Let_def using subseq_index_filter[of dets] by auto

section \<open>Greedy NMS: counterexamples\<close>

lemma argsort2: "argsort [a, b] = (if a \<le> b then [0, 1] else [1, 0])"
  by (simp add: argsort_def upt_rec)

text \<open>
  C2 as stated fails: of two boxes far apart both survive, and the one with the lower
  score, first in the input, is first in the output.
\<close>

theorem nms_descending_counterexample:
  "nms [(1 / 2, 0, 0, 10, 10), (9 / 10, 100, 100, 110, 110)] (1 / 2)
     = [(1 / 2, 0, 0, 10, 10), (9 / 10, 100, 100, 110, 110)] \<and>
   \<not> sorted (rev (map fst (nms [(1 / 2, 0, 0, 10, 10), (9 / 10, 100, 100, 110, 110)] (1 / 2))))"
proof -
  have o: "nms_ovr (100, 100, 110, 110) (0, 0, 10, 10) = Fin 0"
    by (simp add: nms_ovr_def inter_def area_def box_sel Let_def)
  have u: "[0..<2] = [0, Suc 0]"
    by (simp add: upt_rec)
  have "nms [(1 / 2, 0, 0, 10, 10), (9 / 10, 100, 100, 110, 110)] (1 / 2)
     = [(1 / 2, 0, 0, 10, 10), (9 / 10, 100, 100, 110, 110)]"
    by (simp add: nms_def argsort2 o np_ge_def u Let_def)
  moreover have "\<not> sorted (rev (map fst ([(1 / 2, 0, 0, 10, 10), (9 / 10, 100, 100, 110, 110)] :: det list)))"
  proof -
    have r: "rev (map fst ([(1 / 2, 0, 0, 10, 10), (9 / 10, 100, 100, 110, 110)] :: det list)) = [9 / 10, 1 / 2::real]"
      by simp
    show ?thesis unfolding r by (simp only: sorted2) simp
  qed
  ultimately show ?thesis by (simp only: simp_thms)
qed



section \<open>Zero denominators\<close>



section \<open>Mask tensors that are not four-dimensional\<close>

lemma collect_invalid:
  assumes "\<forall>(k, v) \<in> set result. contains ''mask'' k \<longrightarrow> (\<exists>a. fst v = Some a \<and> length (shape a) \<noteq> 4)"
  shows "collect_masks M result =
           Inr (replicate (length (filter (\<lambda>(k, v). contains ''mask'' k) result)) (np_zeros [0, M, M]))"
  using assms
proof (induction result)
  case Nil
  then show ?case by simp
next
  case (Cons kv result)
  obtain k v where kv: "kv = (k, v)" by (cases kv)
  from Cons.prems have rest: "\<forall>(k, v) \<in> set result. contains ''mask'' k \<longrightarrow> (\<exists>a. fst v = Some a \<and> length (shape a) \<noteq> 4)"
    by simp
  note IH = Cons.IH[OF rest]
  show ?case
  proof (cases "contains ''mask'' k")
    case True
    with Cons.prems kv obtain a where a: "fst v = Some a" "length (shape a) \<noteq> 4" by auto
    show ?thesis using True a IH kv by simp
  next
    case False
    then show ?thesis using IH kv by simp
  qed
qed

text \<open>
  C8, as the code has it. The substitute for a mask tensor that is not four-dimensional
  is \<^verbatim>\<open>np.zeros((0, M, M))\<close>, an array without a single map. When every mask tensor
  of the result is of that kind, the mean is this empty array and the count is 0.
\<close>

theorem mask_merge_all_invalid:
  assumes "map_of result ''im_shape'' = Some im_shape"
    and "\<exists>(k, v) \<in> set result. contains ''mask'' k"
    and "\<forall>(k, v) \<in> set result. contains ''mask'' k \<longrightarrow> (\<exists>a. fst v = Some a \<and> length (shape a) \<noteq> 4)"
  shows "mstest_mask_post_process result M = Inr (\<lparr>shape = [0, M, M], data = []\<rparr>, [[0]])"
proof -
  let ?n = "length (filter (\<lambda>(k, v). contains ''mask'' k) result)"
  from assms(2) have "filter (\<lambda>(k, v). contains ''mask'' k) result \<noteq> []"
    by (auto simp: filter_empty_conv)
  then obtain m where n: "?n = Suc m" by (cases ?n) auto
  have c: "collect_masks M result = Inr (np_zeros [0, M, M] # replicate m (np_zeros [0, M, M]))"
    using collect_invalid[OF assms(3), of M] n by simp
  have z: "np_zeros [0, M, M] = \<lparr>shape = [0, M, M], data = []\<rparr>"
    by (simp add: np_zeros_def)
  have mean: "np_mean_axis0 (np_zeros [0, M, M]) (replicate m (np_zeros [0, M, M]))
                = Inr \<lparr>shape = [0, M, M], data = []\<rparr>"
    by (simp add: np_mean_axis0_def z)
  show ?thesis
    using assms(1) c mean by (simp add: mstest_mask_post_process_def np_len_def)
qed

text \<open>Two transforms, both with the marker of shape (1, 1).\<close>

theorem mask_merge_all_invalid_witness:
  "mstest_mask_post_process
     [(''im_shape'', (Some \<lparr>shape = [1, 3], data = [4, 4, 1]\<rparr>, [])),
      (''mask'', (Some \<lparr>shape = [1, 1], data = [0]\<rparr>, [])),
      (''mask_flip'', (Some \<lparr>shape = [1, 1], data = [0]\<rparr>, []))] 2
   = Inr (\<lparr>shape = [0, 2, 2], data = []\<rparr>, [[0]])"
  by (rule mask_merge_all_invalid[where im_shape = "(Some \<lparr>shape = [1, 3], data = [4, 4, 1]\<rparr>, [])"])
     simp_all

text \<open>
  C8 as stated fails: one box with two classes at resolution 1, a valid tensor of shape
  (1, 2, 1, 1) from one transform and an invalid one from the flipped transform. The
  substitute has shape (0, 1, 1), no zero map stands in for the box, and the mean over
  the two arrays of different shapes raises.
\<close>

theorem mask_merge_counterexample:
  "collect_masks 1
     [(''im_shape'', (Some \<lparr>shape = [1, 3], data = [4, 4, 1]\<rparr>, [])),
      (''mask'', (Some \<lparr>shape = [1, 2, 1, 1], data = [1 / 2, 1 / 4]\<rparr>, [[1]])),
      (''mask_flip'', (Some \<lparr>shape = [1, 1], data = [0]\<rparr>, []))]
   = Inr [\<lparr>shape = [1, 2, 1, 1], data = [1 / 2, 1 / 4]\<rparr>, \<lparr>shape = [0, 1, 1], data = []\<rparr>] \<and>
   mstest_mask_post_process
     [(''im_shape'', (Some \<lparr>shape = [1, 3], data = [4, 4, 1]\<rparr>, [])),
      (''mask'', (Some \<lparr>shape = [1, 2, 1, 1], data = [1 / 2, 1 / 4]\<rparr>, [[1]])),
      (''mask_flip'', (Some \<lparr>shape = [1, 1], data = [0]\<rparr>, []))] 1
   = Inl ValueError"
  by (simp add: mstest_mask_post_process_def np_zeros_def np_mean_axis0_def)

section \<open>The guards of mask encoding\<close>

text \<open>
  C9. In a call that reaches the guards (\<^verbatim>\<open>resolution\<close> is not zero and the result
  has its \<^verbatim>\<open>bbox\<close>, \<^verbatim>\<open>mask\<close> and \<^verbatim>\<open>im_shape\<close> entries), a detection array of shape
  (1, 1) or with zero rows gives the empty list, and the loop over the samples is not
  entered.
\<close>

theorem mask_encode_empty:
  assumes "resolution \<noteq> 0"
    and "map_of results ''bbox'' = Some (Some b, bbox_lod)"
    and "map_of results ''mask'' = Some (masks, lengths # mask_lod)"
    and "map_of results ''im_shape'' = Some (im_shapes, shape_lod)"
    and "shape b = [1, 1] \<or> (\<exists>cols. shape b = 0 # cols)"
  shows "mask_encode encode_samples results resolution thresh_binarize = Inr []"
  using assms by (auto simp: mask_encode_def np_len_def Let_def)

text \<open>An array of shape (0, 6) and the marker of shape (1, 1).\<close>

theorem mask_encode_empty_witness:
  "(14::int) \<noteq> 0 \<and>
   mask_encode (\<lambda>scale b masks lengths im_shapes resolution t. Inr [True])
     [(''bbox'', (Some \<lparr>shape = [0, 6], data = []\<rparr>, [[0]])),
      (''mask'', (Some \<lparr>shape = [1, 1], data = [0]\<rparr>, [[0]])),
      (''im_shape'', (Some \<lparr>shape = [1, 3], data = [4, 4, 1]\<rparr>, []))] 14 (1 / 2) = Inr [] \<and>
   mask_encode (\<lambda>scale b masks lengths im_shapes resolution t. Inr [True])
     [(''bbox'', (Some \<lparr>shape = [1, 1], data = [0]\<rparr>, [[0]])),
      (''mask'', (Some \<lparr>shape = [1, 1], data = [0]\<rparr>, [[0]])),
      (''im_shape'', (Some \<lparr>shape = [1, 3], data = [4, 4, 1]\<rparr>, []))] 14 (1 / 2) = Inr []"
proof -
  have r: "(14::int) \<noteq> 0" by simp
  let ?enc = "\<lambda>(scale::real) (b::ndarray) (masks::ndarray option) (lengths::nat list) (im_shapes::ndarray option) (resolution::int) (t::real). (Inr [True] :: error + bool list)"
  let ?m = "(''mask'', (Some \<lparr>shape = [1, 1], data = [0]\<rparr>, [[0::nat]]))"
  let ?s = "(''im_shape'', (Some \<lparr>shape = [1, 3], data = [4, 4, 1]\<rparr>, []::lod))"
  let ?r1 = "[(''bbox'', (Some \<lparr>shape = [0, 6], data = []\<rparr>, [[0]])), ?m, ?s]"
  let ?r2 = "[(''bbox'', (Some \<lparr>shape = [1, 1], data = [0]\<rparr>, [[0]])), ?m, ?s]"
  have a: "mask_encode ?enc ?r1 14 (1 / 2) = Inr []"
    by (rule mask_encode_empty[OF r, where b = "\<lparr>shape = [0, 6], data = []\<rparr>"]) simp_all
  have b: "mask_encode ?enc ?r2 14 (1 / 2) = Inr []"
    by (rule mask_encode_empty[OF r, where b = "\<lparr>shape = [1, 1], data = [0]\<rparr>"]) simp_all
  from r a b show ?thesis by blast
qed

text \<open>
  C10. With \<^verbatim>\<open>None\<close> for the detection array the call never returns a list: the
  condition reads \<^verbatim>\<open>bboxes.shape\<close> before it tests \<^verbatim>\<open>bboxes is None\<close>, which raises
  AttributeError when the statements before it have not raised already.
\<close>

theorem mask_encode_none_raises:
  assumes "map_of results ''bbox'' = Some (None, bbox_lod)"
  shows "(\<exists>e. mask_encode encode_samples results resolution thresh_binarize = Inl e) \<and>
         (resolution \<noteq> 0 \<and> map_of results ''mask'' = Some (masks, lengths # mask_lod) \<and>
          map_of results ''im_shape'' = Some (im_shapes, shape_lod)
          \<longrightarrow> mask_encode encode_samples results resolution thresh_binarize = Inl AttributeError)"
  using assms by (auto simp: mask_encode_def Let_def split: option.splits list.splits prod.splits)

text \<open>A result whose detection array is \<^verbatim>\<open>None\<close>, all else in place.\<close>

theorem mask_encode_none_raises_witness:
  "mask_encode (\<lambda>scale b masks lengths im_shapes resolution t. Inr [True])
     [(''bbox'', (None, [[0]])),
      (''mask'', (Some \<lparr>shape = [1, 1], data = [0]\<rparr>, [[0]])),
      (''im_shape'', (Some \<lparr>shape = [1, 3], data = [4, 4, 1]\<rparr>, []))] 14 (1 / 2) = Inl AttributeError"
  using mask_encode_none_raises[of "[(''bbox'', (None, [[0]])),
      (''mask'', (Some \<lparr>shape = [1, 1], data = [0]\<rparr>, [[0]])),
      (''im_shape'', (Some \<lparr>shape = [1, 3], data = [4, 4, 1]\<rparr>, []))]" "[[0]]"
      "\<lambda>scale b masks lengths im_shapes resolution t. Inr [True]" 14 "1 / 2"
      "Some \<lparr>shape = [1, 1], data = [0]\<rparr>" "[0]" "[]" "Some \<lparr>shape = [1, 3], data = [4, 4, 1]\<rparr>" "[]"]
  by simp

section \<open>The cap keeps the top scores\<close>

lemma py_index_from_end:
  assumes "0 < K" and "K < int (length xs)"
  shows "py_index xs (- K) = Inr (xs ! (length xs - nat K))"
proof -
  have "nat (- K + int (length xs)) = length xs - nat K"
    using assms by linarith
  then show ?thesis using assms by (simp add: py_index_def Let_def)
qed

lemma kth_highest_nth:
  assumes "0 < k" and "k < length xs"
  shows "rev xs ! (k - 1) = xs ! (length xs - k)"
  using assms by (simp add: rev_nth)

lemma length_concat_filter:
  "length (concat (map (filter (\<lambda>r. P (f r))) xss))
     = length (filter P (concat (map (map f) xss)))"
  by (induction xss) (simp_all add: filter_map o_def)

lemma length_filter_insort:
  "length (filter P (insort x xs)) = length (filter P (x # xs))"
  by (induction xs) auto

lemma length_filter_sort:
  "length (filter P (sort xs)) = length (filter P xs)"
  by (induction xs) (simp_all add: length_filter_insort)

lemma sorted_filter_ge_drop:
  assumes "sorted xs" and "i < length xs"
  shows "filter (\<lambda>x. xs ! i \<le> x) (drop i xs) = drop i xs"
proof -
  have "xs ! i \<le> x" if "x \<in> set (drop i xs)" for x
  proof -
    from that obtain j where j: "j < length (drop i xs)" "x = drop i xs ! j"
      by (auto simp: in_set_conv_nth)
    then have "x = xs ! (i + j)" using assms(2) by simp
    moreover have "i + j < length xs" using j(1) by simp
    ultimately show ?thesis using sorted_nth_mono[OF assms(1), of i "i + j"] by simp
  qed
  then show ?thesis by (simp add: filter_id_conv)
qed

lemma at_least_k_kept:
  assumes "sorted xs" and "i < length xs"
  shows "length xs - i \<le> length (filter (\<lambda>x. xs ! i \<le> x) xs)"
proof -
  have "filter (\<lambda>x. xs ! i \<le> x) xs
          = filter (\<lambda>x. xs ! i \<le> x) (take i xs) @ filter (\<lambda>x. xs ! i \<le> x) (drop i xs)"
    by (metis append_take_drop_id filter_append)
  then show ?thesis using sorted_filter_ge_drop[OF assms] by simp
qed

lemma exactly_k_kept:
  assumes "sorted xs" and "i < length xs"
    and once: "length (filter (\<lambda>x. x = xs ! i) xs) \<le> 1"
  shows "length (filter (\<lambda>x. xs ! i \<le> x) xs) = length xs - i"
proof -
  let ?c = "xs ! i"
  have split: "xs = take i xs @ ?c # drop (Suc i) xs"
    using assms(2) by (simp add: id_take_nth_drop)
  have "length (filter (\<lambda>x. x = ?c) xs)
          = length (filter (\<lambda>x. x = ?c) (take i xs)) + length (filter (\<lambda>x. x = ?c) (?c # drop (Suc i) xs))"
    by (subst split) (simp only: filter_append length_append)
  then have "length (filter (\<lambda>x. x = ?c) (take i xs)) = 0"
    using once by simp
  then have none: "\<forall>x \<in> set (take i xs). x \<noteq> ?c"
    by (simp add: filter_empty_conv)
  have below: "\<not> ?c \<le> x" if "x \<in> set (take i xs)" for x
  proof -
    from that obtain j where j: "j < length (take i xs)" "x = take i xs ! j"
      by (auto simp: in_set_conv_nth)
    then have "j < i" "x = xs ! j" by simp_all
    then have "x \<le> ?c" using sorted_nth_mono[OF assms(1), of j i] assms(2) by simp
    with none that show ?thesis by force
  qed
  have "filter (\<lambda>x. ?c \<le> x) (take i xs) = []"
    unfolding filter_empty_conv using below by blast
  moreover have "filter (\<lambda>x. ?c \<le> x) xs
          = filter (\<lambda>x. ?c \<le> x) (take i xs) @ filter (\<lambda>x. ?c \<le> x) (drop i xs)"
    by (metis append_take_drop_id filter_append)
  ultimately show ?thesis using sorted_filter_ge_drop[OF assms(1,2)] by simp
qed

text \<open>
  C1. With \<open>K\<close> from 1 up to less than the number of pooled detections, the cap returns,
  class by class and in their order, exactly the rows whose score is at least the
  \<open>K\<close>-th highest pooled score (entry \<open>K - 1\<close> of the scores in descending order). At
  least \<open>K\<close> rows are returned, and exactly \<open>K\<close> when the cutoff score occurs once in
  the pool.
\<close>

theorem global_cap_keeps_top_scores:
  assumes "0 < K" and "K < int (length (concat (map (map score_of) cls_boxes)))"
  shows "let pool = concat (map (map score_of) cls_boxes);
             cutoff = rev (sort pool) ! (nat K - 1);
             kept = concat (map (filter (\<lambda>r. cutoff \<le> score_of r)) cls_boxes)
         in get_nms_result_cap K cls_boxes = Inr kept \<and>
            K \<le> int (length kept) \<and>
            (length (filter (\<lambda>s. s = cutoff) pool) \<le> 1 \<longrightarrow> int (length kept) = K)"
proof -
  define pool where "pool = concat (map (map score_of) cls_boxes)"
  define xs where "xs = sort pool"
  define k where "k = nat K"
  define cutoff where "cutoff = rev xs ! (k - 1)"
  define kept where "kept = concat (map (filter (\<lambda>r. cutoff \<le> score_of r)) cls_boxes)"
  have n: "length xs = length pool" by (simp add: xs_def)
  have k: "0 < k" "k < length xs" using assms by (simp_all add: k_def n pool_def)
  have srt: "sorted xs" by (simp add: xs_def)
  have i: "length xs - k < length xs" using k by simp
  have cut: "cutoff = xs ! (length xs - k)"
    unfolding cutoff_def using kth_highest_nth[OF k] .
  have ne: "cls_boxes \<noteq> []" using assms by auto
  have idx: "py_index xs (- K) = Inr cutoff"
    using py_index_from_end[of K xs] assms n cut by (simp add: k_def pool_def)
  have res: "get_nms_result_cap K cls_boxes = Inr kept"
    using ne assms(2) idx
    by (simp add: get_nms_result_cap_def Let_def pool_def[symmetric] xs_def[symmetric] kept_def)
  have len: "length kept = length (filter (\<lambda>x. cutoff \<le> x) xs)"
    unfolding kept_def xs_def length_filter_sort pool_def
    by (rule length_concat_filter)
  have ge: "k \<le> length kept"
    using at_least_k_kept[OF srt i] k unfolding len cut by simp
  have eq: "length kept = k" if "length (filter (\<lambda>s. s = cutoff) pool) \<le> 1"
  proof -
    have "length (filter (\<lambda>s. s = cutoff) xs) \<le> 1"
      using that unfolding xs_def length_filter_sort .
    then have "length (filter (\<lambda>x. xs ! (length xs - k) \<le> x) xs) = length xs - (length xs - k)"
      unfolding cut by (intro exactly_k_kept[OF srt i])
    then show ?thesis using k unfolding len cut by simp
  qed
  have "get_nms_result_cap K cls_boxes = Inr kept \<and>
            K \<le> int (length kept) \<and>
            (length (filter (\<lambda>s. s = cutoff) pool) \<le> 1 \<longrightarrow> int (length kept) = K)"
    using res ge eq assms(1) by (auto simp: k_def)
  then show ?thesis
    unfolding Let_def kept_def cutoff_def xs_def k_def pool_def .
qed


text \<open>Four detections in two classes, capped at two.\<close>

theorem global_cap_keeps_top_scores_witness:
  "(0::int) < 2 \<and>
   2 < int (length (concat (map (map score_of)
         [[(1, 9 / 10, 0, 0, 1, 1), (1, 1 / 2, 0, 0, 1, 1)],
          [(2, 7 / 10, 0, 0, 1, 1), (2, 3 / 10, 0, 0, 1, 1)]]))) \<and>
   get_nms_result_cap 2
         [[(1, 9 / 10, 0, 0, 1, 1), (1, 1 / 2, 0, 0, 1, 1)],
          [(2, 7 / 10, 0, 0, 1, 1), (2, 3 / 10, 0, 0, 1, 1)]]
     = Inr [(1, 9 / 10, 0, 0, 1, 1), (2, 7 / 10, 0, 0, 1, 1)]"
proof -
  let ?cls = "[[(1, 9 / 10, 0, 0, 1, 1), (1, 1 / 2, 0, 0, 1, 1)],
          [(2, 7 / 10, 0, 0, 1, 1), (2, 3 / 10, 0, 0, 1, 1)]] :: ldet list list"
  have p: "concat (map (map score_of) ?cls) = [9 / 10, 1 / 2, 7 / 10, 3 / 10]"
    by (simp add: score_of_def)
  have h1: "(0::int) < 2" by simp
  have h2: "2 < int (length (concat (map (map score_of) ?cls)))"
    unfolding p by simp
  have s: "rev (sort [9 / 10, 1 / 2, 7 / 10, 3 / 10 :: real]) ! (nat 2 - 1) = 7 / 10"
    by simp
  have "get_nms_result_cap 2 ?cls = Inr [(1, 9 / 10, 0, 0, 1, 1), (2, 7 / 10, 0, 0, 1, 1)]"
    using global_cap_keeps_top_scores[OF h1 h2]
    unfolding Let_def p s by (simp add: score_of_def)
  with h1 h2 show ?thesis by blast
qed

section \<open>Soft-NMS: one pass of the loop\<close>

lemma np_le_trans: "np_le a b \<Longrightarrow> np_le b c \<Longrightarrow> np_le a c"
  by (cases a; cases b; cases c) auto

lemma soft_ovr_cases:
  "soft_ovr bt b = NaN \<or> (\<exists>r. soft_ovr bt b = Fin r)"
proof (cases "area b + area bt - inter bt b = 0")
  case True
  then have "area bt + area b - inter bt b = 0" by simp
  from zero_den_zero_inter[OF this] True show ?thesis
    by (simp add: soft_ovr_def inf_of_sign_def)
next
  case False
  then show ?thesis by (simp add: soft_ovr_def)
qed




lemma all_fin_map:
  assumes "\<forall>x \<in> set xs. \<exists>s. x = Fin s"
  shows "\<exists>rs. xs = map Fin rs"
  using assms
proof (induction xs)
  case Nil
  then show ?case by simp
next
  case (Cons x xs)
  then obtain s rs where "x = Fin s" "xs = map Fin rs" by auto
  then have "x # xs = map Fin (s # rs)" by simp
  then show ?case by (rule exI[of _ "s # rs"])
qed

lemma argmax_scan_Fin:
  "(argmax_scan (map Fin rs) i (Fin m) j = j \<and> (\<forall>x \<in> set rs. x \<le> m)) \<or>
   (\<exists>k < length rs. argmax_scan (map Fin rs) i (Fin m) j = i + k \<and> m < rs ! k \<and>
       (\<forall>x \<in> set rs. x \<le> rs ! k))"
proof (induction rs arbitrary: i m j)
  case Nil
  then show ?case by simp
next
  case (Cons x rs)
  show ?case
  proof (cases "x \<le> m")
    case True
    then have step: "argmax_scan (map Fin (x # rs)) i (Fin m) j = argmax_scan (map Fin rs) (Suc i) (Fin m) j"
      by simp
    from Cons.IH[of "Suc i" m j] show ?thesis
    proof
      assume "argmax_scan (map Fin rs) (Suc i) (Fin m) j = j \<and> (\<forall>x \<in> set rs. x \<le> m)"
      then show ?thesis using True step by simp
    next
      assume "\<exists>k < length rs. argmax_scan (map Fin rs) (Suc i) (Fin m) j = Suc i + k \<and> m < rs ! k \<and>
       (\<forall>x \<in> set rs. x \<le> rs ! k)"
      then obtain k where k: "k < length rs" "argmax_scan (map Fin rs) (Suc i) (Fin m) j = Suc i + k"
        "m < rs ! k" "\<forall>x \<in> set rs. x \<le> rs ! k" by blast
      have "Suc k < length (x # rs) \<and> argmax_scan (map Fin (x # rs)) i (Fin m) j = i + Suc k \<and>
            m < (x # rs) ! Suc k \<and> (\<forall>y \<in> set (x # rs). y \<le> (x # rs) ! Suc k)"
        using k True step by auto
      then show ?thesis by blast
    qed
  next
    case False
    then have step: "argmax_scan (map Fin (x # rs)) i (Fin m) j = argmax_scan (map Fin rs) (Suc i) (Fin x) i"
      by simp
    from Cons.IH[of "Suc i" x i] show ?thesis
    proof
      assume "argmax_scan (map Fin rs) (Suc i) (Fin x) i = i \<and> (\<forall>y \<in> set rs. y \<le> x)"
      then have "0 < length (x # rs) \<and> argmax_scan (map Fin (x # rs)) i (Fin m) j = i + 0 \<and>
            m < (x # rs) ! 0 \<and> (\<forall>y \<in> set (x # rs). y \<le> (x # rs) ! 0)"
        using False step by auto
      then show ?thesis by blast
    next
      assume "\<exists>k < length rs. argmax_scan (map Fin rs) (Suc i) (Fin x) i = Suc i + k \<and> x < rs ! k \<and>
       (\<forall>y \<in> set rs. y \<le> rs ! k)"
      then obtain k where k: "k < length rs" "argmax_scan (map Fin rs) (Suc i) (Fin x) i = Suc i + k"
        "x < rs ! k" "\<forall>y \<in> set rs. y \<le> rs ! k" by blast
      have "Suc k < length (x # rs) \<and> argmax_scan (map Fin (x # rs)) i (Fin m) j = i + Suc k \<and>
            m < (x # rs) ! Suc k \<and> (\<forall>y \<in> set (x # rs). y \<le> (x # rs) ! Suc k)"
        using k False step by auto
      then show ?thesis by blast
    qed
  qed
qed

lemma np_argmax_Fin:
  assumes "rs \<noteq> []"
  shows "np_argmax (map Fin rs) < length rs \<and> (\<forall>x \<in> set rs. x \<le> rs ! np_argmax (map Fin rs))"
proof -
  from assms obtain m ms where rs: "rs = m # ms" by (cases rs) auto
  from argmax_scan_Fin[of ms 1 m 0] show ?thesis
  proof
    assume "argmax_scan (map Fin ms) 1 (Fin m) 0 = 0 \<and> (\<forall>x \<in> set ms. x \<le> m)"
    then show ?thesis using rs by simp
  next
    assume "\<exists>k < length ms. argmax_scan (map Fin ms) 1 (Fin m) 0 = 1 + k \<and> m < ms ! k \<and>
       (\<forall>x \<in> set ms. x \<le> ms ! k)"
    then show ?thesis using rs by auto
  qed
qed


lemma map_fst_of_det: "map fst (map of_det ds) = map Fin (map fst ds)"
  by (simp add: of_det_def o_def)

lemma map_snd_of_det: "map snd (map of_det ds) = map snd ds"
  by (simp add: of_det_def o_def)





section \<open>Soft-NMS: the loop\<close>

lemma all_fin_of_det:
  assumes "\<forall>d \<in> set xs. \<exists>s. fst d = Fin s"
  shows "\<exists>ds. xs = map of_det ds"
  using assms
proof (induction xs)
  case Nil
  then show ?case by simp
next
  case (Cons x xs)
  then obtain s ds where "fst x = Fin s" "xs = map of_det ds" by auto
  then have "x # xs = map of_det ((s, snd x) # ds)"
    by (simp add: of_det_def prod_eq_iff)
  then show ?case by (rule exI[of _ "(s, snd x) # ds"])
qed

lemma soft_nms_loop_Nil: "soft_nms_loop sigma thres [] out = Some out"
  by (subst soft_nms_loop.simps) simp

lemma soft_nms_loop_step:
  assumes "dets \<noteq> []" and "soft_nms_step sigma thres dets = (p, dets')"
  shows "soft_nms_loop sigma thres dets out = soft_nms_loop sigma thres dets' (out @ [p])"
  using assms by (subst soft_nms_loop.simps) simp


section \<open>Soft-NMS on one row and on two rows\<close>





lemma far_apart: "soft_ovr (0, 0, 10, 10) (100, 100, 110, 110) = Fin 0"
  by (simp add: soft_ovr_def inter_def area_def box_sel Let_def)



section \<open>Soft-NMS run on its own output\<close>









section \<open>Rounding to float32 at given values\<close>

lemma floor_log2:
  fixes x :: real and k :: int
  assumes "2 powr of_int k \<le> x" and "x < 2 powr of_int (k + 1)"
  shows "\<lfloor>log 2 x\<rfloor> = k"
proof -
  have pos: "0 < x" using assms(1) by (smt (verit) powr_gt_zero)
  have "of_int k \<le> log 2 x" using assms(1) pos by (simp add: le_log_iff)
  moreover have "log 2 x < of_int (k + 1)" using assms(2) pos by (simp add: log_less_iff)
  ultimately show ?thesis by linarith
qed

lemma f32_eval:
  fixes x :: real and k :: int
  assumes "2 powr of_int k \<le> \<bar>x\<bar>" and "\<bar>x\<bar> < 2 powr of_int (k + 1)"
  shows "f32 x = of_int (round_ties_even (x / 2 powr of_int (k - 23))) * 2 powr of_int (k - 23)"
proof -
  have "x \<noteq> 0" using assms(1) by (smt (verit) powr_gt_zero)
  then show ?thesis using floor_log2[OF assms] by (simp add: f32_def Let_def)
qed


lemma round_ties_even_int: "round_ties_even (of_int m) = m"
  by (simp add: round_ties_even_def)

lemma f32_at:
  fixes x :: real and k :: int and m :: int
  assumes "2 powr of_int k \<le> \<bar>x\<bar>" and "\<bar>x\<bar> < 2 powr of_int (k + 1)"
    and "x / 2 powr of_int (k - 23) = of_int m"
  shows "f32 x = x"
proof -
  have "f32 x = of_int m * 2 powr of_int (k - 23)"
    using f32_eval[OF assms(1,2)] assms(3) by (simp add: round_ties_even_int)
  also have "\<dots> = x" using assms(3)[symmetric] by simp
  finally show ?thesis .
qed











section \<open>Mirroring twice\<close>

















section \<open>Rounding to float32 around 1\<close>

text \<open>Rounding to an integer moves a value less than one unit.\<close>

lemma round_ties_even_bounds:
  "\<lfloor>q\<rfloor> \<le> round_ties_even q" "round_ties_even q \<le> \<lfloor>q\<rfloor> + 1"
  by (simp_all add: round_ties_even_def Let_def)

text \<open>A positive value lies in the binade of its exponent, and rounding keeps it there.\<close>

lemma binade:
  fixes x :: real
  assumes "0 < x"
  shows "2 powr of_int \<lfloor>log 2 x\<rfloor> \<le> x" and "x < 2 powr of_int (\<lfloor>log 2 x\<rfloor> + 1)"
proof -
  have x: "2 powr log 2 x = x" using assms by simp
  have "2 powr of_int \<lfloor>log 2 x\<rfloor> \<le> 2 powr log 2 x"
    by (rule powr_mono) simp_all
  then show "2 powr of_int \<lfloor>log 2 x\<rfloor> \<le> x" unfolding x .
  have "log 2 x < of_int (\<lfloor>log 2 x\<rfloor> + 1)" by linarith
  then have "2 powr log 2 x < 2 powr of_int (\<lfloor>log 2 x\<rfloor> + 1)"
    by (rule powr_less_mono) simp
  then show "x < 2 powr of_int (\<lfloor>log 2 x\<rfloor> + 1)" unfolding x .
qed

text \<open>The significand of a positive value: between \<open>2^23\<close> and \<open>2^24\<close>.\<close>

lemma significand_range:
  fixes x :: real and k :: int
  assumes "2 powr of_int k \<le> x" and "x < 2 powr of_int (k + 1)"
  shows "8388608 \<le> x / 2 powr of_int (k - 23)" and "x / 2 powr of_int (k - 23) < 16777216"
proof -
  have p: "(0::real) < 2 powr of_int (k - 23)" by simp
  have a: "(2::real) powr of_int k = 8388608 * 2 powr of_int (k - 23)"
  proof -
    have "(2::real) powr of_int k = 2 powr (23 + of_int (k - 23))" by simp
    also have "\<dots> = 2 powr 23 * 2 powr of_int (k - 23)" by (rule powr_add)
    finally show ?thesis by simp
  qed
  have b: "(2::real) powr of_int (k + 1) = 16777216 * 2 powr of_int (k - 23)"
  proof -
    have "(2::real) powr of_int (k + 1) = 2 powr (24 + of_int (k - 23))" by (simp add: algebra_simps)
    also have "\<dots> = 2 powr 24 * 2 powr of_int (k - 23)" by (rule powr_add)
    finally show ?thesis by simp
  qed
  show "8388608 \<le> x / 2 powr of_int (k - 23)"
    using assms(1) p unfolding a by (simp add: le_divide_eq)
  show "x / 2 powr of_int (k - 23) < 16777216"
    using assms(2) p unfolding b by (simp add: divide_less_eq)
qed

lemma f32_binade:
  fixes x :: real and k :: int
  assumes "2 powr of_int k \<le> x" and "x < 2 powr of_int (k + 1)"
  shows "2 powr of_int k \<le> f32 x" and "f32 x \<le> 2 powr of_int (k + 1)"
proof -
  let ?u = "2 powr of_int (k - 23) :: real"
  let ?q = "x / ?u"
  have p: "0 < ?u" by simp
  have pos: "0 < x" using assms(1) by (smt (verit) powr_gt_zero)
  have ev: "f32 x = of_int (round_ties_even ?q) * ?u"
    using f32_eval[of k x] assms pos by simp
  note s = significand_range[OF assms]
  have "(8388608::int) \<le> \<lfloor>?q\<rfloor>" using s(1) by linarith
  then have lo: "(8388608::real) \<le> of_int (round_ties_even ?q)"
    using round_ties_even_bounds(1)[of ?q] by linarith
  have "\<lfloor>?q\<rfloor> < (16777216::int)" using s(2) by linarith
  then have hi: "of_int (round_ties_even ?q) \<le> (16777216::real)"
    using round_ties_even_bounds(2)[of ?q] by linarith
  have a: "(2::real) powr of_int k = 8388608 * ?u"
  proof -
    have "(2::real) powr of_int k = 2 powr (23 + of_int (k - 23))" by simp
    also have "\<dots> = 2 powr 23 * ?u" by (rule powr_add)
    finally show ?thesis by simp
  qed
  have b: "(2::real) powr of_int (k + 1) = 16777216 * ?u"
  proof -
    have "(2::real) powr of_int (k + 1) = 2 powr (24 + of_int (k - 23))" by (simp add: algebra_simps)
    also have "\<dots> = 2 powr 24 * ?u" by (rule powr_add)
    finally show ?thesis by simp
  qed
  show "2 powr of_int k \<le> f32 x"
    unfolding ev a using lo p by (intro mult_right_mono) simp_all
  show "f32 x \<le> 2 powr of_int (k + 1)"
    unfolding ev b using hi p by (intro mult_right_mono) simp_all
qed

lemma f32_one: "f32 1 = 1"
  by (rule f32_at[of 0 _ 8388608]) (simp_all add: powr_minus)

text \<open>A value from 0 to 1 stays in that range.\<close>

lemma f32_unit_range:
  assumes "0 \<le> r" and "r \<le> 1"
  shows "0 \<le> f32 r" and "f32 r \<le> 1"
proof -
  consider "r = 0" | "r = 1" | "0 < r \<and> r < 1" using assms by linarith
  then have "0 \<le> f32 r \<and> f32 r \<le> 1"
  proof cases
    case 1
    then show ?thesis by (simp add: f32_def)
  next
    case 2
    then show ?thesis by (simp add: f32_one)
  next
    case 3
    define k where "k = \<lfloor>log 2 r\<rfloor>"
    have "log 2 r < 0" using 3 by simp
    then have k: "k + 1 \<le> 0" unfolding k_def by linarith
    note b = binade[of r, folded k_def]
    from 3 have r: "0 < r" by simp
    note f = f32_binade[OF b(1)[OF r] b(2)[OF r]]
    have "2 powr of_int (k + 1) \<le> (2::real) powr 0"
      using k by (intro powr_mono) simp_all
    then have "f32 r \<le> 1" using f(2) by simp
    moreover have "0 \<le> f32 r" using f(1) by (smt (verit) powr_gt_zero)
    ultimately show ?thesis by simp
  qed
  then show "0 \<le> f32 r" and "f32 r \<le> 1" by simp_all
qed

text \<open>Above 1 the first float32 is \<open>1 + 2^-23\<close>; up to half way there a value rounds to 1.\<close>

lemma f32_near_one:
  assumes "1 \<le> t" and "t \<le> 1 + 1 / 16777216"
  shows "f32 t = 1"
proof -
  have b: "2 powr of_int 0 \<le> t" "t < 2 powr of_int (0 + 1)" using assms by simp_all
  have q: "t / 2 powr of_int (0 - 23) = t * 8388608" by (simp add: powr_minus)
  have fl: "\<lfloor>t * 8388608\<rfloor> = 8388608" using assms by linarith
  have fr: "t * 8388608 - 8388608 \<le> 1 / 2" using assms by simp
  have "round_ties_even (t * 8388608) = 8388608"
    using fr by (simp add: round_ties_even_def Let_def fl)
  then show ?thesis
    using f32_eval[of 0 t] b q assms by (simp add: powr_minus)
qed

lemma f32_above_one:
  assumes "1 + 1 / 16777216 < t"
  shows "1 < f32 t"
proof (cases "t < 2")
  case True
  have b: "2 powr of_int 0 \<le> t" "t < 2 powr of_int (0 + 1)" using assms True by simp_all
  have q: "t / 2 powr of_int (0 - 23) = t * 8388608" by (simp add: powr_minus)
  have gt: "8388608 + 1 / 2 < t * 8388608" using assms by simp
  have "8388609 \<le> round_ties_even (t * 8388608)"
  proof (cases "8388609 \<le> \<lfloor>t * 8388608\<rfloor>")
    case True
    then show ?thesis using round_ties_even_bounds(1)[of "t * 8388608"] by linarith
  next
    case False
    with gt have fl: "\<lfloor>t * 8388608\<rfloor> = 8388608" by linarith
    then show ?thesis using gt by (simp add: round_ties_even_def Let_def)
  qed
  then have "(8388609::real) \<le> of_int (round_ties_even (t * 8388608))" by linarith
  then show ?thesis
    using f32_eval[of 0 t] b q assms by (simp add: powr_minus)
next
  case False
  define k where "k = \<lfloor>log 2 t\<rfloor>"
  from False have t: "0 < t" "2 \<le> t" by simp_all
  have "1 \<le> log 2 t" using t by (simp add: le_log_iff)
  then have k: "1 \<le> k" unfolding k_def by linarith
  note b = binade[of t, folded k_def]
  note f = f32_binade[OF b(1)[OF t(1)] b(2)[OF t(1)]]
  have "(2::real) powr 1 \<le> 2 powr of_int k" using k by (intro powr_mono) simp_all
  then show ?thesis using f(1) by simp
qed

section \<open>Box voting above the threshold 1\<close>

lemma vote_rows_no_votes:
  assumes "\<forall>o' \<in> set overlaps_k. \<not> np_ge o' (Fin (f32 vote_thresh))"
  shows "vote_rows all_boxes all_scores vote_thresh ((d, overlaps_k) # rest)
           = Inl ZeroDivisionError"
proof -
  have "filter (\<lambda>i. np_ge (overlaps_k ! i) (Fin (f32 vote_thresh))) [0..<length overlaps_k] = []"
    using assms by (auto simp: filter_empty_conv)
  then show ?thesis by (simp add: np_average_def Let_def)
qed

text \<open>A stored overlap is a float32 from 0 to 1.\<close>

lemma stored_overlap_range:
  "\<exists>r. np_f32 (bbox_overlap xn yk) = Fin r \<and> 0 \<le> r \<and> r \<le> 1"
proof -
  obtain r where r: "bbox_overlap xn yk = Fin r" "0 \<le> r" "r \<le> 1"
    using bbox_overlap_range[of xn yk] by blast
  show ?thesis
    using f32_unit_range[OF r(2) r(3)] by (simp add: r(1))
qed

lemma overlaps_below_thresh:
  assumes "1 + 1 / 16777216 < vote_thresh"
  shows "\<not> np_ge (np_f32 (bbox_overlap xn yk)) (Fin (f32 vote_thresh))"
  using stored_overlap_range[of xn yk] f32_above_one[OF assms] by (auto simp: np_ge_def)

text \<open>The threshold enters the loop only through its float32 value.\<close>

lemma vote_rows_cong:
  assumes "f32 s = f32 t"
  shows "vote_rows all_boxes all_scores s rows = vote_rows all_boxes all_scores t rows"
  using assms by (induction rows) (auto simp: Let_def split: sum.splits)

text \<open>
  C6, as the code has it. The threshold is compared after rounding to float32, where 1 is
  followed by \<open>1 + 2^-23\<close>. A threshold above 1 but not above \<open>1 + 2^-24\<close> rounds to 1 and
  the call is the call with the threshold 1. A threshold above \<open>1 + 2^-24\<close> rounds to more
  than 1; no entry of \<^verbatim>\<open>overlaps\<close> exceeds 1, so no candidate is selected, not even the
  surviving box itself; the weights are then empty, and \<^verbatim>\<open>np.average\<close> raises on the first
  survivor. Only an empty set of survivors is returned.
\<close>

theorem box_voting_above_one:
  assumes "1 < vote_thresh"
  shows "box_voting nms_dets dets vote_thresh =
           (if vote_thresh \<le> 1 + 1 / 16777216 then box_voting nms_dets dets 1
            else if nms_dets = [] then Inr [] else Inl ZeroDivisionError)"
proof (cases "vote_thresh \<le> 1 + 1 / 16777216")
  case True
  have "f32 vote_thresh = f32 1"
    using f32_near_one[of vote_thresh] assms True by (simp add: f32_one)
  from vote_rows_cong[OF this] show ?thesis
    using True by (simp add: box_voting_def Let_def)
next
  case False
  then have above: "1 + 1 / 16777216 < vote_thresh" by simp
  show ?thesis
  proof (cases nms_dets)
    case Nil
    then show ?thesis using False by (simp add: box_voting_def bbox_overlaps_def)
  next
    case (Cons d ds)
    let ?row = "map (\<lambda>yk. np_f32 (bbox_overlap (snd d) yk)) (map snd dets)"
    have z: "zip nms_dets (bbox_overlaps (map snd nms_dets) (map snd dets))
               = (d, ?row) # zip ds (bbox_overlaps (map snd ds) (map snd dets))"
      using Cons by (simp add: bbox_overlaps_def)
    have "\<forall>o' \<in> set ?row. \<not> np_ge o' (Fin (f32 vote_thresh))"
      using overlaps_below_thresh[OF above] by auto
    from vote_rows_no_votes[OF this] show ?thesis
      unfolding box_voting_def Let_def z using Cons False by simp
  qed
qed

text \<open>A box has overlap 1 with itself, and the float32 store keeps it.\<close>

lemma self_overlap: "np_f32 (bbox_overlap (0, 0, 10, 10) (0, 0, 10, 10)) = Fin 1"
  by (simp add: bbox_overlap_def bbox_area_def box_sel Let_def f32_one)

lemma box_voting_at_one:
  "box_voting [(9 / 10, 0, 0, 10, 10)] [(9 / 10, 0, 0, 10, 10)] 1
     = Inr [(9 / 10, 0, 0, 10, 10)]"
  by (simp add: box_voting_def bbox_overlaps_def self_overlap np_ge_def np_average_def
      box_sel Let_def f32_one)

text \<open>
  The threshold 3 / 2 with two survivors, and with none; and the threshold \<open>1 + 10^-9\<close>,
  which is compared as 1, with one survivor that is its own pool.
\<close>

theorem box_voting_above_one_witness:
  "(1::real) < 3 / 2 \<and>
   box_voting [(9 / 10, 0, 0, 10, 10), (4 / 5, 20, 20, 30, 30)]
              [(9 / 10, 0, 0, 10, 10), (7 / 10, 1, 1, 11, 11), (4 / 5, 20, 20, 30, 30)] (3 / 2)
     = Inl ZeroDivisionError \<and>
   box_voting [] [(9 / 10, 0, 0, 10, 10)] (3 / 2) = Inr [] \<and>
   (1::real) < 1 + 1 / 1000000000 \<and>
   box_voting [(9 / 10, 0, 0, 10, 10)] [(9 / 10, 0, 0, 10, 10)] (1 + 1 / 1000000000)
     = Inr [(9 / 10, 0, 0, 10, 10)]"
proof -
  have h: "(1::real) < 3 / 2" by simp
  have g: "(1::real) < 1 + 1 / 1000000000" by simp
  have a: "box_voting [(9 / 10, 0, 0, 10, 10), (4 / 5, 20, 20, 30, 30)]
              [(9 / 10, 0, 0, 10, 10), (7 / 10, 1, 1, 11, 11), (4 / 5, 20, 20, 30, 30)] (3 / 2)
             = Inl ZeroDivisionError"
    using box_voting_above_one[OF h, of "[(9 / 10, 0, 0, 10, 10), (4 / 5, 20, 20, 30, 30)]"
          "[(9 / 10, 0, 0, 10, 10), (7 / 10, 1, 1, 11, 11), (4 / 5, 20, 20, 30, 30)]"]
    by simp
  have b: "box_voting [] [(9 / 10, 0, 0, 10, 10)] (3 / 2) = Inr []"
    using box_voting_above_one[OF h, of "[]" "[(9 / 10, 0, 0, 10, 10)]"] by simp
  have c: "box_voting [(9 / 10, 0, 0, 10, 10)] [(9 / 10, 0, 0, 10, 10)] (1 + 1 / 1000000000)
             = Inr [(9 / 10, 0, 0, 10, 10)]"
    using box_voting_above_one[OF g, of "[(9 / 10, 0, 0, 10, 10)]" "[(9 / 10, 0, 0, 10, 10)]"]
    by (simp add: box_voting_at_one)
  show ?thesis using h g a b c by simp
qed

text \<open>
  C6 as stated fails: one survivor that is its own pool, with the threshold 1.001, is
  not returned; the call raises.
\<close>

theorem box_voting_above_one_counterexample:
  "box_voting [(9 / 10, 0, 0, 10, 10)] [(9 / 10, 0, 0, 10, 10)] (1001 / 1000)
     = Inl ZeroDivisionError"
proof -
  have t: "1 < f32 (1001 / 1000)" by (rule f32_above_one) simp
  show ?thesis
    using t by (simp add: box_voting_def bbox_overlaps_def self_overlap np_ge_def
        np_average_def Let_def)
qed

section \<open>Rounding to float32 is monotone, odd and idempotent\<close>

lemma round_ties_even_mono:
  assumes "q \<le> r"
  shows "round_ties_even q \<le> round_ties_even r"
proof (cases "\<lfloor>q\<rfloor> < \<lfloor>r\<rfloor>")
  case True
  have "round_ties_even q \<le> \<lfloor>q\<rfloor> + 1" by (rule round_ties_even_bounds(2))
  also have "\<dots> \<le> \<lfloor>r\<rfloor>" using True by simp
  also have "\<dots> \<le> round_ties_even r" by (rule round_ties_even_bounds(1))
  finally show ?thesis .
next
  case False
  moreover have "\<lfloor>q\<rfloor> \<le> \<lfloor>r\<rfloor>" using assms by (rule floor_mono)
  ultimately have e: "\<lfloor>q\<rfloor> = \<lfloor>r\<rfloor>" by simp
  show ?thesis using assms unfolding round_ties_even_def Let_def e by auto
qed

lemma round_ties_even_minus: "round_ties_even (- q) = - round_ties_even q"
proof (cases "q = of_int \<lfloor>q\<rfloor>")
  case True
  then obtain n :: int where q: "q = of_int n" ..
  have "- q = of_int (- n)" using q by simp
  then have "round_ties_even (- q) = - n" by (simp only: round_ties_even_int)
  then show ?thesis using q by (simp add: round_ties_even_int)
next
  case False
  define f where "f = \<lfloor>q\<rfloor>"
  have c: "\<lceil>q\<rceil> = f + 1" using False unfolding f_def by (simp add: ceiling_altdef)
  have fl: "\<lfloor>- q\<rfloor> = - f - 1" unfolding floor_minus c by simp
  have r: "of_int f < q" "q < of_int f + 1"
    using False unfolding f_def by linarith+
  have lhs: "round_ties_even (- q) =
      (if - q - of_int (- f - 1) < 1 / 2 then - f - 1
       else if - q - of_int (- f - 1) > 1 / 2 then - f - 1 + 1
       else if even (- f - 1) then - f - 1 else - f - 1 + 1)"
    unfolding round_ties_even_def Let_def fl ..
  have rhs: "round_ties_even q =
      (if q - of_int f < 1 / 2 then f
       else if q - of_int f > 1 / 2 then f + 1
       else if even f then f else f + 1)"
    unfolding round_ties_even_def Let_def f_def ..
  consider "q - of_int f < 1 / 2" | "q - of_int f > 1 / 2" | "q - of_int f = 1 / 2" by linarith
  then show ?thesis
  proof cases
    case 1
    then have "\<not> - q - of_int (- f - 1) < 1 / 2" "- q - of_int (- f - 1) > 1 / 2" by simp_all
    then show ?thesis unfolding lhs rhs using 1 by simp
  next
    case 2
    then have "- q - of_int (- f - 1) < 1 / 2" by simp
    then show ?thesis unfolding lhs rhs using 2 by simp
  next
    case 3
    then have "- q - of_int (- f - 1) = 1 / 2" by simp
    then show ?thesis unfolding lhs rhs using 3 by simp
  qed
qed

lemma f32_zero: "f32 0 = 0"
  by (simp add: f32_def)

lemma f32_minus: "f32 (- x) = - f32 x"
proof (cases "x = 0")
  case True
  then show ?thesis by (simp add: f32_zero)
next
  case False
  let ?u = "2 powr of_int (\<lfloor>log 2 \<bar>x\<bar>\<rfloor> - 23) :: real"
  have "- x / ?u = - (x / ?u)" by simp
  then have "round_ties_even (- x / ?u) = - round_ties_even (x / ?u)"
    by (simp only: round_ties_even_minus)
  then show ?thesis using False by (simp add: f32_def Let_def)
qed

lemma binade_unit:
  fixes k :: int
  shows "(2::real) powr of_int k = 8388608 * 2 powr of_int (k - 23)"
    and "(2::real) powr of_int (k + 1) = 16777216 * 2 powr of_int (k - 23)"
proof -
  have "(2::real) powr of_int k = 2 powr (23 + of_int (k - 23))" by simp
  also have "\<dots> = 2 powr 23 * 2 powr of_int (k - 23)" by (rule powr_add)
  finally show "(2::real) powr of_int k = 8388608 * 2 powr of_int (k - 23)" by simp
  have "(2::real) powr of_int (k + 1) = 2 powr (24 + of_int (k - 23))" by (simp add: algebra_simps)
  also have "\<dots> = 2 powr 24 * 2 powr of_int (k - 23)" by (rule powr_add)
  finally show "(2::real) powr of_int (k + 1) = 16777216 * 2 powr of_int (k - 23)" by simp
qed

lemma f32_pos:
  assumes "0 < x"
  shows "0 < f32 x"
proof -
  note b = binade[OF assms]
  have "(0::real) < 2 powr of_int \<lfloor>log 2 x\<rfloor>" by simp
  also have "\<dots> \<le> f32 x" by (rule f32_binade(1)[OF b])
  finally show ?thesis .
qed

lemma f32_mono_pos:
  assumes "0 < x" and "x \<le> y"
  shows "f32 x \<le> f32 y"
proof -
  define kx where "kx = \<lfloor>log 2 x\<rfloor>"
  define ky where "ky = \<lfloor>log 2 y\<rfloor>"
  have y: "0 < y" using assms by simp
  note bx = binade[OF assms(1), folded kx_def]
  note by' = binade[OF y, folded ky_def]
  have "log 2 x \<le> log 2 y" using assms by simp
  then have k: "kx \<le> ky" unfolding kx_def ky_def by (rule floor_mono)
  show ?thesis
  proof (cases "kx < ky")
    case True
    have "f32 x \<le> 2 powr of_int (kx + 1)" by (rule f32_binade(2)[OF bx])
    also have "\<dots> \<le> 2 powr of_int ky" using True by (intro powr_mono) simp_all
    also have "\<dots> \<le> f32 y" by (rule f32_binade(1)[OF by'])
    finally show ?thesis .
  next
    case False
    with k have e: "ky = kx" by simp
    let ?u = "2 powr of_int (kx - 23) :: real"
    have ex: "f32 x = of_int (round_ties_even (x / ?u)) * ?u"
      using f32_eval[of kx x] bx assms(1) by simp
    have ey: "f32 y = of_int (round_ties_even (y / ?u)) * ?u"
      using f32_eval[of kx y] by' y unfolding e by simp
    have "x / ?u \<le> y / ?u" using assms(2) by (simp add: divide_right_mono)
    then have "round_ties_even (x / ?u) \<le> round_ties_even (y / ?u)"
      by (rule round_ties_even_mono)
    then have "(of_int (round_ties_even (x / ?u)) :: real) \<le> of_int (round_ties_even (y / ?u))"
      by simp
    then show ?thesis unfolding ex ey by (intro mult_right_mono) simp_all
  qed
qed

lemma f32_mono:
  assumes "x \<le> y"
  shows "f32 x \<le> f32 y"
proof -
  consider "0 < x" | "x \<le> 0 \<and> 0 \<le> y" | "y < 0" using assms by linarith
  then show ?thesis
  proof cases
    case 1
    then show ?thesis using assms by (rule f32_mono_pos)
  next
    case 2
    have "f32 x \<le> 0"
    proof (cases "x = 0")
      case True
      then show ?thesis by (simp add: f32_zero)
    next
      case False
      with 2 have "0 < - x" by simp
      from f32_pos[OF this] show ?thesis by (simp add: f32_minus)
    qed
    moreover have "0 \<le> f32 y"
    proof (cases "y = 0")
      case True
      then show ?thesis by (simp add: f32_zero)
    next
      case False
      with 2 have "0 < y" by simp
      from f32_pos[OF this] show ?thesis by simp
    qed
    ultimately show ?thesis by simp
  next
    case 3
    then have "0 < - y" "- y \<le> - x" using assms by simp_all
    from f32_mono_pos[OF this] show ?thesis by (simp add: f32_minus)
  qed
qed

lemma f32_idem_pos:
  assumes "0 < x"
  shows "f32 (f32 x) = f32 x"
proof -
  define k where "k = \<lfloor>log 2 x\<rfloor>"
  define u :: real where "u = 2 powr of_int (k - 23)"
  define m where "m = round_ties_even (x / u)"
  note b = binade[OF assms, folded k_def]
  have u: "0 < u" by (simp add: u_def)
  have ev: "f32 x = of_int m * u"
    using f32_eval[of k x] b assms by (simp add: m_def u_def)
  note s = significand_range[OF b, folded u_def]
  have "(8388608::int) \<le> \<lfloor>x / u\<rfloor>" using s(1) by linarith
  then have lo: "8388608 \<le> m"
    using round_ties_even_bounds(1)[of "x / u"] unfolding m_def by linarith
  have "\<lfloor>x / u\<rfloor> < (16777216::int)" using s(2) by linarith
  then have hi: "m \<le> 16777216"
    using round_ties_even_bounds(2)[of "x / u"] unfolding m_def by linarith
  note bu = binade_unit[of k, folded u_def]
  show ?thesis
  proof (cases "m = 16777216")
    case True
    then have v: "f32 x = 2 powr of_int (k + 1)" unfolding ev bu by simp
    have "f32 (2 powr of_int (k + 1)) = 2 powr of_int (k + 1)"
    proof (rule f32_at[of "k + 1" _ 8388608])
      show "2 powr of_int (k + 1) \<le> \<bar>2 powr of_int (k + 1) :: real\<bar>" by simp
      show "\<bar>2 powr of_int (k + 1) :: real\<bar> < 2 powr of_int (k + 1 + 1)"
        by (simp add: powr_less_cancel_iff)
      show "2 powr of_int (k + 1) / 2 powr of_int (k + 1 - 23) = (of_int 8388608 :: real)"
        using binade_unit(1)[of "k + 1"] by simp
    qed
    then show ?thesis unfolding v .
  next
    case False
    with hi have lt: "m < 16777216" by simp
    have p: "0 < of_int m * u" using lo u by simp
    show ?thesis unfolding ev
    proof (rule f32_at[of k _ m])
      have "8388608 * u \<le> of_int m * u" using lo u by (intro mult_right_mono) simp_all
      then show "2 powr of_int k \<le> \<bar>of_int m * u\<bar>" using p unfolding bu by simp
      have "of_int m * u < 16777216 * u" using lt u by (intro mult_strict_right_mono) simp_all
      then show "\<bar>of_int m * u\<bar> < 2 powr of_int (k + 1)" using p unfolding bu by simp
      show "of_int m * u / 2 powr of_int (k - 23) = of_int m" using u by (simp add: u_def)
    qed
  qed
qed

lemma f32_idem: "f32 (f32 x) = f32 x"
proof -
  consider "0 < x" | "x = 0" | "0 < - x" by linarith
  then show ?thesis
  proof cases
    case 1
    then show ?thesis by (rule f32_idem_pos)
  next
    case 2
    then show ?thesis by (simp add: f32_zero)
  next
    case 3
    from f32_idem_pos[OF this] show ?thesis by (simp add: f32_minus)
  qed
qed

section \<open>Soft-NMS in float arithmetic: one pass of the loop\<close>

text \<open>
  What the float arithmetic is assumed to do: rounding is monotone, keeps 0 and keeps a
  value it has produced; \<open>ex\<close> of an argument that is not positive is a weight from 0 to
  1, 0 included.
\<close>

lemma soft_weight_with_cases:
  assumes sig: "0 < rnd sigma"
    and ex: "\<And>a. a \<le> 0 \<Longrightarrow> \<exists>w. ex a = Fin w \<and> 0 \<le> w \<and> w \<le> 1"
  shows "soft_weight_with ex rnd sigma (soft_ovr bt b) = NaN \<or>
         (\<exists>w. soft_weight_with ex rnd sigma (soft_ovr bt b) = Fin w \<and> 0 \<le> w \<and> w \<le> 1)"
proof -
  from soft_ovr_cases[of bt b] show ?thesis
  proof
    assume "soft_ovr bt b = NaN"
    then show ?thesis by (simp add: soft_weight_with_def)
  next
    assume "\<exists>r. soft_ovr bt b = Fin r"
    then obtain r where r: "soft_ovr bt b = Fin r" ..
    have "- (r * r) / rnd sigma \<le> 0" using sig by (simp add: divide_nonpos_pos)
    from ex[OF this] obtain w where "ex (- (r * r) / rnd sigma) = Fin w" "0 \<le> w" "w \<le> 1"
      by blast
    then show ?thesis using r sig by (simp add: soft_weight_with_def)
  qed
qed

lemma soft_nms_step_with_unfold:
  "soft_nms_step_with ex rnd sigma thres dets =
     (dets ! np_argmax (map fst dets),
      filter (\<lambda>d. np_ge (fst d) (Fin (rnd thres)))
        (zip (map2 (np_mul_with rnd) ((map fst dets)[np_argmax (map fst dets) := Fin (- 1)])
                (map (soft_weight_with ex rnd sigma)
                   (map (soft_ovr (snd (dets ! np_argmax (map fst dets)))) (map snd dets))))
             (map snd dets)))"
  by (simp only: soft_nms_step_with_def Let_def)

text \<open>The picked row has the score \<open>-1\<close> times a weight, which is not positive.\<close>

lemma picked_row_dropped_with:
  assumes sig: "0 < rnd sigma" and thr: "0 < rnd thres"
    and mono: "\<And>x y. x \<le> y \<Longrightarrow> rnd x \<le> rnd y" and zero: "rnd 0 = 0"
    and ex: "\<And>a. a \<le> 0 \<Longrightarrow> \<exists>w. ex a = Fin w \<and> 0 \<le> w \<and> w \<le> 1"
  shows "\<not> np_ge (np_mul_with rnd (Fin (- 1)) (soft_weight_with ex rnd sigma (soft_ovr bt b)))
             (Fin (rnd thres))"
proof -
  from soft_weight_with_cases[of rnd sigma ex bt b, OF sig ex] show ?thesis
  proof
    assume "soft_weight_with ex rnd sigma (soft_ovr bt b) = NaN"
    then show ?thesis by (simp add: np_ge_def)
  next
    assume "\<exists>w. soft_weight_with ex rnd sigma (soft_ovr bt b) = Fin w \<and> 0 \<le> w \<and> w \<le> 1"
    then obtain w where w: "soft_weight_with ex rnd sigma (soft_ovr bt b) = Fin w" "0 \<le> w"
      by blast
    have "rnd (- 1 * w) \<le> rnd 0" using w(2) by (intro mono) simp
    then have "rnd (- 1 * w) < rnd thres" using thr zero by simp
    then show ?thesis unfolding w(1) by (simp add: np_ge_def)
  qed
qed

text \<open>A row that stays had a positive score, and its new score is not above the old one.\<close>

lemma kept_row_bounds_with:
  assumes sig: "0 < rnd sigma" and thr: "0 < rnd thres"
    and mono: "\<And>x y. x \<le> y \<Longrightarrow> rnd x \<le> rnd y" and zero: "rnd 0 = 0"
    and idem: "\<And>x. rnd (rnd x) = rnd x"
    and ex: "\<And>a. a \<le> 0 \<Longrightarrow> \<exists>w. ex a = Fin w \<and> 0 \<le> w \<and> w \<le> 1"
    and rep: "rnd s = s"
    and kept: "np_ge (np_mul_with rnd (Fin s) (soft_weight_with ex rnd sigma (soft_ovr bt b)))
                 (Fin (rnd thres))"
  shows "\<exists>s'. np_mul_with rnd (Fin s) (soft_weight_with ex rnd sigma (soft_ovr bt b)) = Fin s' \<and>
               rnd thres \<le> s' \<and> s' \<le> s \<and> rnd s' = s'"
proof -
  from soft_weight_with_cases[of rnd sigma ex bt b, OF sig ex] kept
  obtain w where w: "soft_weight_with ex rnd sigma (soft_ovr bt b) = Fin w" "0 \<le> w" "w \<le> 1"
    by (auto simp: np_ge_def)
  from kept have t: "rnd thres \<le> rnd (s * w)" unfolding w(1) by (simp add: np_ge_def)
  have pos: "0 < s * w"
  proof (rule ccontr)
    assume "\<not> 0 < s * w"
    then have "s * w \<le> 0" by simp
    then have "rnd (s * w) \<le> rnd 0" by (rule mono)
    with t thr zero show False by simp
  qed
  have "0 < s" using pos w(2) by (simp add: zero_less_mult_iff)
  then have "s * w \<le> s" using w(3) by (simp add: mult_left_le)
  then have "rnd (s * w) \<le> rnd s" by (rule mono)
  then have "rnd (s * w) \<le> s" unfolding rep .
  with t idem[of "s * w"] show ?thesis unfolding w(1) by simp
qed

lemma soft_nms_step_with_props:
  assumes sig: "0 < rnd sigma" and thr: "0 < rnd thres"
    and mono: "\<And>x y. x \<le> y \<Longrightarrow> rnd x \<le> rnd y" and zero: "rnd 0 = 0"
    and idem: "\<And>x. rnd (rnd x) = rnd x"
    and ex: "\<And>a. a \<le> 0 \<Longrightarrow> \<exists>w. ex a = Fin w \<and> 0 \<le> w \<and> w \<le> 1"
    and rep: "\<forall>d \<in> set ds. rnd (fst d) = fst d"
    and ne: "ds \<noteq> []"
    and step: "soft_nms_step_with ex rnd sigma thres (map of_det ds) = (p, dets')"
  shows "\<exists>m. p \<in> set (map of_det ds) \<and> fst p = Fin m \<and> (\<forall>d \<in> set ds. fst d \<le> m) \<and>
             length dets' < length ds \<and>
             (\<forall>d' \<in> set dets'. \<exists>s. fst d' = Fin s \<and> rnd thres \<le> s \<and> s \<le> m \<and> rnd s = s)"
proof -
  define dets where "dets = map of_det ds"
  define rs where "rs = map fst ds"
  define boxes where "boxes = map snd dets"
  define mp where "mp = np_argmax (map fst dets)"
  define bt where "bt = snd (dets ! mp)"
  define scores where "scores = (map fst dets)[mp := Fin (- 1)]"
  define weight where "weight = map (soft_weight_with ex rnd sigma) (map (soft_ovr bt) boxes)"
  define scores' where "scores' = map2 (np_mul_with rnd) scores weight"
  define keep where "keep = (\<lambda>d :: sdet. np_ge (fst d) (Fin (rnd thres)))"
  have fsts: "map fst dets = map Fin rs"
    unfolding dets_def rs_def by (rule map_fst_of_det)
  have n: "length rs = length ds" "length boxes = length ds" "length scores = length ds"
    "length weight = length ds" "length scores' = length ds" "length dets = length ds"
    by (simp_all add: rs_def boxes_def scores_def weight_def scores'_def dets_def)
  have rne: "rs \<noteq> []" using ne by (simp add: rs_def)
  from np_argmax_Fin[OF rne] have mp: "mp < length ds" "\<forall>x \<in> set rs. x \<le> rs ! mp"
    by (simp_all add: mp_def fsts n[symmetric])
  have "soft_nms_step_with ex rnd sigma thres dets = (dets ! mp, filter keep (zip scores' boxes))"
    unfolding soft_nms_step_with_unfold keep_def scores'_def weight_def scores_def bt_def mp_def
      boxes_def ..
  with step have pk: "p = dets ! mp" and d': "dets' = filter keep (zip scores' boxes)"
    unfolding dets_def by simp_all
  have fp: "fst p = Fin (rs ! mp)" using pk mp(1) by (simp add: of_det_def rs_def dets_def)
  have le: "\<forall>d \<in> set ds. fst d \<le> rs ! mp" using mp(2) by (simp add: rs_def)
  have sc: "scores ! k = (if k = mp then Fin (- 1) else Fin (rs ! k))" if "k < length ds" for k
    using that n unfolding scores_def fsts by (simp add: nth_list_update)
  have entry: "scores' ! k
      = np_mul_with rnd (scores ! k) (soft_weight_with ex rnd sigma (soft_ovr bt (boxes ! k)))"
    if "k < length ds" for k
    using that n by (simp add: scores'_def weight_def)
  have at_mp: "\<not> keep (scores' ! mp, boxes ! mp)"
    using picked_row_dropped_with[of rnd sigma thres ex bt "boxes ! mp", OF sig thr mono zero ex]
      mp(1) n
    by (simp add: keep_def entry sc)
  have "(scores' ! mp, boxes ! mp) \<in> set (zip scores' boxes)"
    using mp(1) n by (auto simp: set_zip)
  from length_filter_less[of "(scores' ! mp, boxes ! mp)" "zip scores' boxes" keep, OF this at_mp]
  have len: "length dets' < length (zip scores' boxes)"
    unfolding d' .
  have bounds: "\<exists>s. fst d = Fin s \<and> rnd thres \<le> s \<and> s \<le> rs ! mp \<and> rnd s = s"
    if d: "d \<in> set dets'" for d
  proof -
    from d have dz: "d \<in> set (zip scores' boxes)" and kd: "keep d" by (simp_all add: d')
    from dz obtain k where k: "k < length ds" "d = (scores' ! k, boxes ! k)"
      using n by (auto simp: set_zip)
    have "k \<noteq> mp" using kd at_mp k by auto
    then have sk: "scores ! k = Fin (rs ! k)" using k(1) sc by simp
    have rk: "rnd (rs ! k) = rs ! k" using rep k(1) by (simp add: rs_def)
    have "np_ge (np_mul_with rnd (Fin (rs ! k))
                   (soft_weight_with ex rnd sigma (soft_ovr bt (boxes ! k)))) (Fin (rnd thres))"
      using kd k entry[OF k(1)] sk by (simp add: keep_def)
    from kept_row_bounds_with[of rnd sigma thres ex "rs ! k" bt "boxes ! k",
        OF sig thr mono zero idem ex rk this]
    obtain s' where
      s': "np_mul_with rnd (Fin (rs ! k)) (soft_weight_with ex rnd sigma (soft_ovr bt (boxes ! k)))
             = Fin s'"
        "rnd thres \<le> s'" "s' \<le> rs ! k" "rnd s' = s'" by blast
    have "rs ! k \<le> rs ! mp" using mp(2) k(1) n by simp
    then show ?thesis using s' k entry[OF k(1)] sk by simp
  qed
  have mem: "p \<in> set (map of_det ds)"
    unfolding pk dets_def using mp(1) by (intro nth_mem) simp
  from mem fp le len bounds n show ?thesis by auto
qed

section \<open>Soft-NMS in float arithmetic: the loop\<close>

lemma soft_nms_loop_with_Nil: "soft_nms_loop_with ex rnd sigma thres [] out = Some out"
  by (subst soft_nms_loop_with.simps) simp

lemma soft_nms_loop_with_step:
  assumes "dets \<noteq> []" and "soft_nms_step_with ex rnd sigma thres dets = (p, dets')"
  shows "soft_nms_loop_with ex rnd sigma thres dets out
           = soft_nms_loop_with ex rnd sigma thres dets' (out @ [p])"
  using assms by (subst soft_nms_loop_with.simps) simp

text \<open>
  With \<open>sigma\<close> and \<open>thres\<close> positive in the type of the array every pass drops the picked
  row, so the loop ends. The rows picked so far are in descending score order and
  dominate the rows still in the array; these lie at or above the converted \<open>thres\<close>
  once a pass has filtered them.
\<close>

lemma soft_nms_loop_with_result:
  assumes sig: "0 < rnd sigma" and thr: "0 < rnd thres"
    and mono: "\<And>x y. x \<le> y \<Longrightarrow> rnd x \<le> rnd y" and zero: "rnd 0 = 0"
    and idem: "\<And>x. rnd (rnd x) = rnd x"
    and ex: "\<And>a. a \<le> 0 \<Longrightarrow> \<exists>w. ex a = Fin w \<and> 0 \<le> w \<and> w \<le> 1"
    and "\<forall>d \<in> set ds. rnd (fst d) = fst d"
    and "sorted_wrt (\<lambda>a b. np_ge (fst a) (fst b)) out"
    and "\<forall>o' \<in> set out. \<forall>d \<in> set ds. np_ge (fst o') (Fin (fst d))"
    and "out \<noteq> [] \<longrightarrow> (\<forall>d \<in> set ds. rnd thres \<le> fst d)"
    and "\<forall>d \<in> set (tl out). np_ge (fst d) (Fin (rnd thres))"
  shows "\<exists>rest. soft_nms_loop_with ex rnd sigma thres (map of_det ds) out = Some (out @ rest) \<and>
           sorted_wrt (\<lambda>a b. np_ge (fst a) (fst b)) (out @ rest) \<and>
           (\<forall>d \<in> set (tl (out @ rest)). np_ge (fst d) (Fin (rnd thres)))"
  using assms(7-)
proof (induction "length ds" arbitrary: ds out rule: less_induct)
  case less
  show ?case
  proof (cases "ds = []")
    case True
    then have "soft_nms_loop_with ex rnd sigma thres (map of_det ds) out = Some (out @ [])"
      by (simp add: soft_nms_loop_with_Nil)
    with less.prems show ?thesis by (intro exI[of _ "[]"]) simp
  next
    case False
    obtain p dets' where step: "soft_nms_step_with ex rnd sigma thres (map of_det ds) = (p, dets')"
      by (cases "soft_nms_step_with ex rnd sigma thres (map of_det ds)")
    from soft_nms_step_with_props[of rnd sigma thres ex ds p dets',
        OF sig thr mono zero idem ex less.prems(1) False step]
    obtain m where
      m: "p \<in> set (map of_det ds)" "fst p = Fin m" "\<forall>d \<in> set ds. fst d \<le> m"
         "length dets' < length ds"
         "\<forall>d' \<in> set dets'. \<exists>s. fst d' = Fin s \<and> rnd thres \<le> s \<and> s \<le> m \<and> rnd s = s"
      by blast
    from m(5) have "\<forall>d \<in> set dets'. \<exists>s. fst d = Fin s" by blast
    from all_fin_of_det[OF this] obtain ds' where ds': "dets' = map of_det ds'" ..
    have len: "length ds' < length ds" using m(4) ds' by simp
    have b': "\<forall>d \<in> set ds'. rnd thres \<le> fst d \<and> fst d \<le> m \<and> rnd (fst d) = fst d"
      using m(5) unfolding ds' by (auto simp: of_det_def)
    from m(1) obtain dp where dp: "dp \<in> set ds" "p = of_det dp" by auto
    then have mdp: "m = fst dp" using m(2) by (simp add: of_det_def)
    have above_p: "\<forall>o' \<in> set out. np_ge (fst o') (fst p)"
      using less.prems(3) dp(1) m(2) mdp by simp
    have p1: "\<forall>d \<in> set ds'. rnd (fst d) = fst d" using b' by simp
    have p2: "sorted_wrt (\<lambda>a b. np_ge (fst a) (fst b)) (out @ [p])"
      using less.prems(2) above_p by (simp add: sorted_wrt_append)
    have p3: "\<forall>o' \<in> set (out @ [p]). \<forall>d \<in> set ds'. np_ge (fst o') (Fin (fst d))"
    proof (intro ballI)
      fix o' d assume o: "o' \<in> set (out @ [p])" and d: "d \<in> set ds'"
      from b' d have dm: "np_le (Fin (fst d)) (Fin m)" by simp
      from o above_p m(2) have "np_le (Fin m) (fst o')" by (auto simp: np_ge_def)
      from np_le_trans[OF dm this] show "np_ge (fst o') (Fin (fst d))" by (simp add: np_ge_def)
    qed
    have p4: "out @ [p] \<noteq> [] \<longrightarrow> (\<forall>d \<in> set ds'. rnd thres \<le> fst d)"
      using b' by simp
    have p5: "\<forall>d \<in> set (tl (out @ [p])). np_ge (fst d) (Fin (rnd thres))"
    proof (cases out)
      case Nil
      then show ?thesis by simp
    next
      case (Cons a as)
      with less.prems(4) dp(1) have "rnd thres \<le> fst dp" by simp
      then have "np_ge (fst p) (Fin (rnd thres))" using m(2) mdp by (simp add: np_ge_def)
      with less.prems(5) Cons show ?thesis by simp
    qed
    from less.hyps[OF len p1 p2 p3 p4 p5] obtain rest where
      rest: "soft_nms_loop_with ex rnd sigma thres (map of_det ds') (out @ [p])
               = Some ((out @ [p]) @ rest)"
        "sorted_wrt (\<lambda>a b. np_ge (fst a) (fst b)) ((out @ [p]) @ rest)"
        "\<forall>d \<in> set (tl ((out @ [p]) @ rest)). np_ge (fst d) (Fin (rnd thres))"
      by blast
    have "soft_nms_loop_with ex rnd sigma thres (map of_det ds) out = Some (out @ (p # rest))"
      using soft_nms_loop_with_step[of "map of_det ds" ex rnd sigma thres p dets' out]
        False step rest(1) ds'
      by simp
    with rest(2-3) show ?thesis by (intro exI[of _ "p # rest"]) simp
  qed
qed

section \<open>Soft-NMS: the scores of the output\<close>

text \<open>
  C4, as the code has it. Let \<open>rnd\<close> be the rounding to the float type of the array
  (monotone, keeping 0 and its own values) and \<open>ex\<close> its exponential (a weight from 0 to
  1, 0 included, for an argument that is not positive). For \<open>sigma\<close> and \<open>thres\<close> that
  are positive after conversion to that type, on an array of finite scores of that type,
  \<^verbatim>\<open>soft_nms\<close> returns; the scores of its rows do not increase in pick order; every row
  after the first has a score of at least the converted \<open>thres\<close>, which can be less than
  \<open>thres\<close>. The first row is a row of the input of maximal score with the score it came
  with, which no test compares with \<open>thres\<close>.
\<close>

theorem soft_nms_scores_descend:
  assumes sig: "0 < rnd sigma" and thr: "0 < rnd thres"
    and mono: "\<forall>x y. x \<le> y \<longrightarrow> rnd x \<le> rnd y" and zero: "rnd 0 = 0"
    and idem: "\<forall>x. rnd (rnd x) = rnd x"
    and ex: "\<forall>a \<le> 0. \<exists>w. ex a = Fin w \<and> 0 \<le> w \<and> w \<le> 1"
    and rep: "\<forall>d \<in> set dets. rnd (fst d) = fst d"
  shows "\<exists>out. soft_nms_with ex rnd (map of_det dets) sigma thres = Some out \<and>
           sorted_wrt (\<lambda>a b. np_ge (fst a) (fst b)) out \<and>
           (\<forall>d \<in> set (tl out). np_ge (fst d) (Fin (rnd thres))) \<and>
           (dets \<noteq> [] \<longrightarrow> (\<exists>d \<in> set dets. hd out = of_det d \<and> (\<forall>e \<in> set dets. fst e \<le> fst d)))"
proof (cases "dets = []")
  case True
  then show ?thesis by (simp add: soft_nms_with_def soft_nms_loop_with_Nil)
next
  case False
  have mono': "\<And>x y. x \<le> y \<Longrightarrow> rnd x \<le> rnd y" using mono by simp
  have idem': "\<And>x. rnd (rnd x) = rnd x" using idem by simp
  have ex': "\<And>a. a \<le> 0 \<Longrightarrow> \<exists>w. ex a = Fin w \<and> 0 \<le> w \<and> w \<le> 1" using ex by simp
  obtain p dets' where step: "soft_nms_step_with ex rnd sigma thres (map of_det dets) = (p, dets')"
    by (cases "soft_nms_step_with ex rnd sigma thres (map of_det dets)")
  from soft_nms_step_with_props[of rnd sigma thres ex dets p dets',
      OF sig thr mono' zero idem' ex' rep False step]
  obtain m where
    m: "p \<in> set (map of_det dets)" "fst p = Fin m" "\<forall>d \<in> set dets. fst d \<le> m"
       "\<forall>d' \<in> set dets'. \<exists>s. fst d' = Fin s \<and> rnd thres \<le> s \<and> s \<le> m \<and> rnd s = s"
    by blast
  from m(4) have "\<forall>d \<in> set dets'. \<exists>s. fst d = Fin s" by blast
  from all_fin_of_det[OF this] obtain ds' where ds': "dets' = map of_det ds'" ..
  have b': "\<forall>d \<in> set ds'. rnd thres \<le> fst d \<and> fst d \<le> m \<and> rnd (fst d) = fst d"
    using m(4) unfolding ds' by (auto simp: of_det_def)
  from m(1) obtain dp where dp: "dp \<in> set dets" "p = of_det dp" by auto
  then have mdp: "m = fst dp" using m(2) by (simp add: of_det_def)
  have q1: "\<forall>d \<in> set ds'. rnd (fst d) = fst d" using b' by simp
  have q2: "sorted_wrt (\<lambda>a b. np_ge (fst a) (fst b)) [p]" by simp
  have q3: "\<forall>o' \<in> set [p]. \<forall>d \<in> set ds'. np_ge (fst o') (Fin (fst d))"
    using b' m(2) by (simp add: np_ge_def)
  have q4: "[p] \<noteq> [] \<longrightarrow> (\<forall>d \<in> set ds'. rnd thres \<le> fst d)" using b' by simp
  have q5: "\<forall>d \<in> set (tl [p]). np_ge (fst d) (Fin (rnd thres))" by simp
  from soft_nms_loop_with_result[of rnd sigma thres ex ds' "[p]",
      OF sig thr mono' zero idem' ex' q1 q2 q3 q4 q5]
  obtain rest where
    rest: "soft_nms_loop_with ex rnd sigma thres (map of_det ds') [p] = Some ([p] @ rest)"
      "sorted_wrt (\<lambda>a b. np_ge (fst a) (fst b)) ([p] @ rest)"
      "\<forall>d \<in> set (tl ([p] @ rest)). np_ge (fst d) (Fin (rnd thres))"
    by blast
  have run: "soft_nms_with ex rnd (map of_det dets) sigma thres = Some (p # rest)"
    unfolding soft_nms_with_def
    using soft_nms_loop_with_step[of "map of_det dets" ex rnd sigma thres p dets' "[]"]
      False step rest(1) ds'
    by simp
  have first: "\<exists>d \<in> set dets. hd (p # rest) = of_det d \<and> (\<forall>e \<in> set dets. fst e \<le> fst d)"
    using dp m(3) mdp by auto
  from run rest(2,3) first show ?thesis by (intro exI[of _ "p # rest"]) simp
qed

text \<open>The float32 exponential gives a weight from 0 to 1 for an argument that is not positive.\<close>

lemma exp_f32_range:
  assumes "a \<le> 0"
  shows "\<exists>w. exp_f32 a = Fin w \<and> 0 \<le> w \<and> w \<le> 1"
proof (cases "a < - 104")
  case True
  then show ?thesis by (simp add: exp_f32_def)
next
  case False
  have "0 \<le> exp a" "exp a \<le> 1" using assms by simp_all
  from f32_unit_range[OF this] show ?thesis using False assms by (simp add: exp_f32_def)
qed

lemma exp_f32_zero: "exp_f32 0 = Fin 1"
  by (simp add: exp_f32_def f32_one)

text \<open>Passes of the loop on one row and on two rows.\<close>

lemma soft_nms_step_with_single:
  assumes "0 < rnd sigma" and "0 < rnd thres"
    and "\<And>x y. x \<le> y \<Longrightarrow> rnd x \<le> rnd y" and "rnd 0 = 0"
    and "\<And>a. a \<le> 0 \<Longrightarrow> \<exists>w. ex a = Fin w \<and> 0 \<le> w \<and> w \<le> 1"
  shows "soft_nms_step_with ex rnd sigma thres [(Fin s, b)] = ((Fin s, b), [])"
  using picked_row_dropped_with[of rnd sigma thres ex b b, OF assms]
  by (simp add: soft_nms_step_with_def Let_def)

lemma soft_nms_with_single:
  assumes "0 < rnd sigma" and "0 < rnd thres"
    and "\<And>x y. x \<le> y \<Longrightarrow> rnd x \<le> rnd y" and "rnd 0 = 0"
    and "\<And>a. a \<le> 0 \<Longrightarrow> \<exists>w. ex a = Fin w \<and> 0 \<le> w \<and> w \<le> 1"
  shows "soft_nms_loop_with ex rnd sigma thres [(Fin s, b)] out = Some (out @ [(Fin s, b)])"
  using soft_nms_loop_with_step[OF _ soft_nms_step_with_single[of rnd sigma thres ex s b, OF assms],
      of out]
  by (simp add: soft_nms_loop_with_Nil)

lemma soft_nms_step_with_pair:
  assumes "0 < rnd sigma" and "0 < rnd thres"
    and "\<And>x y. x \<le> y \<Longrightarrow> rnd x \<le> rnd y" and "rnd 0 = 0"
    and "\<And>a. a \<le> 0 \<Longrightarrow> \<exists>w. ex a = Fin w \<and> 0 \<le> w \<and> w \<le> 1"
    and "t \<le> s"
    and "soft_weight_with ex rnd sigma (soft_ovr b1 b2) = Fin w" and "rnd thres \<le> rnd (t * w)"
  shows "soft_nms_step_with ex rnd sigma thres [(Fin s, b1), (Fin t, b2)]
           = ((Fin s, b1), [(Fin (rnd (t * w)), b2)])"
  using picked_row_dropped_with[of rnd sigma thres ex b1 b1, OF assms(1-5)] assms(6-)
  by (simp add: soft_nms_step_with_def Let_def np_ge_def)

lemma soft_nms_with_pair:
  assumes "0 < rnd sigma" and "0 < rnd thres"
    and "\<And>x y. x \<le> y \<Longrightarrow> rnd x \<le> rnd y" and "rnd 0 = 0"
    and "\<And>a. a \<le> 0 \<Longrightarrow> \<exists>w. ex a = Fin w \<and> 0 \<le> w \<and> w \<le> 1"
    and "t \<le> s"
    and "soft_weight_with ex rnd sigma (soft_ovr b1 b2) = Fin w" and "rnd thres \<le> rnd (t * w)"
  shows "soft_nms_with ex rnd [(Fin s, b1), (Fin t, b2)] sigma thres
           = Some [(Fin s, b1), (Fin (rnd (t * w)), b2)]"
  unfolding soft_nms_with_def
  using soft_nms_loop_with_step[OF _ soft_nms_step_with_pair[of rnd sigma thres ex t s b1 b2 w, OF assms],
      of "[]"]
    soft_nms_with_single[of rnd sigma thres ex "rnd (t * w)" b2 "[(Fin s, b1)]", OF assms(1-5)]
  by simp

text \<open>Values of float32: 1/2, 3/4 and 1/8 are kept, 7/10 is rounded down.\<close>

lemma f32_half: "f32 (1 / 2) = 1 / 2"
  by (rule f32_at[of "- 1" _ 8388608]) (simp_all add: powr_minus)

lemma f32_three_quarters: "f32 (3 / 4) = 3 / 4"
  by (rule f32_at[of "- 1" _ 12582912]) (simp_all add: powr_minus)

lemma f32_eighth: "f32 (1 / 8) = 1 / 8"
  by (rule f32_at[of "- 3" _ 8388608]) (simp_all add: powr_minus)

lemma f32_seven_tenths: "f32 (7 / 10) = 11744051 / 16777216"
proof -
  have r: "round_ties_even (58720256 / 5) = 11744051"
    by (simp add: round_ties_even_def Let_def)
  have "f32 (7 / 10)
          = of_int (round_ties_even ((7 / 10) / 2 powr of_int (- 1 - 23))) * 2 powr of_int (- 1 - 23)"
    by (rule f32_eval) (simp_all add: powr_minus)
  also have "(7 / 10 :: real) / 2 powr of_int (- 1 - 23) = 58720256 / 5"
    by (simp add: powr_minus)
  finally show ?thesis unfolding r by (simp add: powr_minus)
qed

lemma f32_below_seven_tenths: "f32 (11744051 / 16777216) = 11744051 / 16777216"
  by (rule f32_at[of "- 1" _ 11744051]) (simp_all add: powr_minus)

lemma far_apart_weight_f32:
  "soft_weight_with exp_f32 f32 (1 / 2) (soft_ovr (0, 0, 10, 10) (100, 100, 110, 110)) = Fin 1"
  unfolding far_apart by (simp add: soft_weight_with_def f32_half exp_f32_zero)

lemma two_far_apart_f32:
  "soft_nms_with exp_f32 f32
     (map of_det [(3 / 4, 0, 0, 10, 10), (11744051 / 16777216, 100, 100, 110, 110)]) (1 / 2) (7 / 10)
     = Some [(Fin (3 / 4), 0, 0, 10, 10), (Fin (11744051 / 16777216), 100, 100, 110, 110)]"
proof -
  have a: "(0::real) < f32 (1 / 2)" by (simp add: f32_half)
  have b: "(0::real) < f32 (7 / 10)" by (simp add: f32_seven_tenths)
  have c: "(11744051 / 16777216 :: real) \<le> 3 / 4" by simp
  have d: "f32 (7 / 10) \<le> f32 (11744051 / 16777216 * 1)"
    by (simp add: f32_seven_tenths f32_below_seven_tenths)
  from soft_nms_with_pair[of f32 "1 / 2" "7 / 10" exp_f32 "11744051 / 16777216" "3 / 4"
      "(0, 0, 10, 10)" "(100, 100, 110, 110)" 1,
      OF a b f32_mono f32_zero exp_f32_range c far_apart_weight_f32 d]
  show ?thesis by (simp add: of_det_def f32_below_seven_tenths)
qed

text \<open>
  Two boxes far apart in float32, \<open>sigma = 1/2\<close> and \<open>thres = 7/10\<close>. The second row
  has the score \<open>11744051 / 2^24\<close>, the float32 nearest to 7/10 and below it: it stays.
\<close>

theorem soft_nms_scores_descend_witness:
  "(0::real) < f32 (1 / 2) \<and> (0::real) < f32 (7 / 10) \<and> f32 0 = 0 \<and>
   f32 (3 / 4) = 3 / 4 \<and> f32 (11744051 / 16777216) = 11744051 / 16777216 \<and>
   soft_nms_with exp_f32 f32
     (map of_det [(3 / 4, 0, 0, 10, 10), (11744051 / 16777216, 100, 100, 110, 110)]) (1 / 2) (7 / 10)
     = Some [(Fin (3 / 4), 0, 0, 10, 10), (Fin (11744051 / 16777216), 100, 100, 110, 110)] \<and>
   sorted_wrt (\<lambda>a b. np_ge (fst a) (fst b))
     [(Fin (3 / 4), 0, 0, 10, 10), (Fin (11744051 / 16777216), 100, 100, 110, 110)] \<and>
   np_ge (Fin (11744051 / 16777216)) (Fin (f32 (7 / 10))) \<and>
   (11744051 / 16777216 :: real) < 7 / 10"
proof -
  have h1: "(0::real) < f32 (1 / 2)" by (simp add: f32_half)
  have h2: "(0::real) < f32 (7 / 10)" by (simp add: f32_seven_tenths)
  have h3: "\<forall>x y. x \<le> y \<longrightarrow> f32 x \<le> f32 y" using f32_mono by blast
  have h4: "\<forall>x. f32 (f32 x) = f32 x" using f32_idem by blast
  have h5: "\<forall>a \<le> 0. \<exists>w. exp_f32 a = Fin w \<and> 0 \<le> w \<and> w \<le> 1" using exp_f32_range by blast
  have h6: "\<forall>d \<in> set [(3 / 4, 0, 0, 10, 10), (11744051 / 16777216, 100, 100, 110, 110) :: det].
              f32 (fst d) = fst d"
    by (simp add: f32_three_quarters f32_below_seven_tenths)
  from soft_nms_scores_descend[of f32 "1 / 2" "7 / 10" exp_f32
      "[(3 / 4, 0, 0, 10, 10), (11744051 / 16777216, 100, 100, 110, 110)]",
      OF h1 h2 h3 f32_zero h4 h5 h6]
  show ?thesis
    unfolding two_far_apart_f32
    using h1 h2 by (simp add: f32_zero f32_three_quarters f32_below_seven_tenths)
qed

text \<open>
  C4 as stated fails: a single row of score 1/8 is returned as it is with the
  threshold 1/2.
\<close>

theorem soft_nms_first_pick_counterexample:
  "soft_nms_with exp_f32 f32 (map of_det [(1 / 8, 0, 0, 10, 10)]) (1 / 2) (1 / 2)
     = Some [(Fin (1 / 8), 0, 0, 10, 10)] \<and>
   f32 (1 / 8) = 1 / 8 \<and> f32 (1 / 2) = 1 / 2 \<and>
   \<not> np_ge (Fin (1 / 8)) (Fin (f32 (1 / 2)))"
proof -
  have a: "(0::real) < f32 (1 / 2)" by (simp add: f32_half)
  from soft_nms_with_single[of f32 "1 / 2" "1 / 2" exp_f32 "1 / 8" "(0, 0, 10, 10)" "[]",
      OF a a f32_mono f32_zero exp_f32_range]
  show ?thesis
    by (simp add: soft_nms_with_def of_det_def np_ge_def f32_half f32_eighth)
qed

section \<open>Soft-NMS: a threshold of zero\<close>

text \<open>
  With \<open>thres = 0\<close> the loop need not end. For \<open>sigma = 1/1000\<close> the weight of the picked
  row, \<open>exp (-1000)\<close>, is 0 in float32; its score \<open>-1\<close> becomes 0, which passes
  \<^verbatim>\<open>scores >= thres\<close>, and the row is picked again in every pass.
\<close>

lemma self_overlap_soft: "soft_ovr (0, 0, 10, 10) (0, 0, 10, 10) = Fin 1"
  by (simp add: soft_ovr_def inter_def area_def box_sel Let_def)

lemma f32_thousandth: "0 < f32 (1 / 1000)" "f32 (1 / 1000) \<le> 1 / 512"
proof -
  have b: "2 powr of_int (- 10) \<le> (1 / 1000 :: real)" "(1 / 1000 :: real) < 2 powr of_int (- 10 + 1)"
    by (simp_all add: powr_minus)
  from f32_binade[OF b] show "0 < f32 (1 / 1000)" "f32 (1 / 1000) \<le> 1 / 512"
    by (simp_all add: powr_minus)
qed

lemma underflow_weight:
  "soft_weight_with exp_f32 f32 (1 / 1000) (soft_ovr (0, 0, 10, 10) (0, 0, 10, 10)) = Fin 0"
proof -
  have "512 \<le> 1 / f32 (1 / 1000)"
    using f32_thousandth by (simp add: le_divide_eq)
  then have "- 1 / f32 (1 / 1000) < - 104" by simp
  then show ?thesis
    using f32_thousandth(1)
    by (simp add: soft_weight_with_def self_overlap_soft exp_f32_def)
qed

lemma underflow_step:
  "soft_nms_step_with exp_f32 f32 (1 / 1000) 0 [(Fin s, (0, 0, 10, 10))]
     = ((Fin s, (0, 0, 10, 10)), [(Fin 0, (0, 0, 10, 10))])"
  by (simp add: soft_nms_step_with_def Let_def underflow_weight f32_zero np_ge_def)

lemma underflow_loop:
  assumes "soft_nms_loop_with ex rnd sigma thres dets out = Some y"
  shows "\<not> (ex = exp_f32 \<and> rnd = f32 \<and> sigma = 1 / 1000 \<and> thres = 0 \<and>
            dets = [(Fin 0, (0, 0, 10, 10))])"
proof (rule soft_nms_loop_with.raw_induct[where P = "\<lambda>ex rnd sigma thres dets out y.
    \<not> (ex = exp_f32 \<and> rnd = f32 \<and> sigma = 1 / 1000 \<and> thres = 0 \<and>
       dets = [(Fin 0, (0, 0, 10, 10))])", OF _ assms])
  fix loop :: "(real \<Rightarrow> npfloat) \<Rightarrow> (real \<Rightarrow> real) \<Rightarrow> real \<Rightarrow> real \<Rightarrow> sdet list \<Rightarrow> sdet list
     \<Rightarrow> sdet list option"
  fix ex rnd sigma thres dets out y
  assume ih: "\<And>ex rnd sigma thres dets out y. loop ex rnd sigma thres dets out = Some y \<Longrightarrow>
     \<not> (ex = exp_f32 \<and> rnd = f32 \<and> sigma = 1 / 1000 \<and> thres = 0 \<and>
        dets = [(Fin 0, (0, 0, 10, 10))])"
    and body: "(if 0 < length dets
      then case soft_nms_step_with ex rnd sigma thres dets of
           (picked, dets') \<Rightarrow> loop ex rnd sigma thres dets' (out @ [picked])
      else Some out) = Some y"
  show "\<not> (ex = exp_f32 \<and> rnd = f32 \<and> sigma = 1 / 1000 \<and> thres = 0 \<and>
            dets = [(Fin 0, (0, 0, 10, 10))])"
  proof
    assume m: "ex = exp_f32 \<and> rnd = f32 \<and> sigma = 1 / 1000 \<and> thres = 0 \<and>
               dets = [(Fin 0, (0, 0, 10, 10))]"
    then have e: "ex = exp_f32" "rnd = f32" "sigma = 1 / 1000" "thres = 0"
      "dets = [(Fin 0, (0, 0, 10, 10))]" by blast+
    have st: "soft_nms_step_with ex rnd sigma thres dets
                = ((Fin 0, (0, 0, 10, 10)), [(Fin 0, (0, 0, 10, 10))])"
      unfolding e by (rule underflow_step)
    have "loop ex rnd sigma thres [(Fin 0, (0, 0, 10, 10))] (out @ [(Fin 0, (0, 0, 10, 10))]) = Some y"
      using body unfolding st by (simp add: e(5))
    from ih[OF this] e show False by blast
  qed
qed

lemma soft_nms_zero_thres_loops:
  "soft_nms_with exp_f32 f32 (map of_det [(1 / 2, 0, 0, 10, 10)]) (1 / 1000) 0 = None"
proof -
  have "soft_nms_loop_with exp_f32 f32 (1 / 1000) 0 [(Fin 0, (0, 0, 10, 10))] out = None" for out
  proof (cases "soft_nms_loop_with exp_f32 f32 (1 / 1000) 0 [(Fin 0, (0, 0, 10, 10))] out")
    case None
    then show ?thesis .
  next
    case (Some y)
    from underflow_loop[OF this] show ?thesis by blast
  qed
  then show ?thesis
    unfolding soft_nms_with_def
    using soft_nms_loop_with_step[OF _ underflow_step[of "1 / 2"], of "[]"]
    by (simp add: of_det_def)
qed

section \<open>Soft-NMS: exact arithmetic as an instance\<close>

text \<open>Without rounding and with the exact exponential the loop is \<open>soft_nms\<close> above.\<close>

lemma np_exp_with_exact: "np_exp_with (\<lambda>a. Fin (exp a)) x = np_exp x"
  by (cases x) simp_all

lemma np_mul_with_exact: "np_mul_with (\<lambda>x. x) a b = np_mul a b"
  by (cases a; cases b) simp_all

lemma soft_nms_step_with_exact:
  "soft_nms_step_with (\<lambda>a. Fin (exp a)) (\<lambda>x. x) sigma thres dets = soft_nms_step sigma thres dets"
proof -
  have w: "soft_weight_with (\<lambda>a. Fin (exp a)) (\<lambda>x. x) sigma = soft_weight sigma"
    by (rule ext) (simp add: soft_weight_with_def soft_weight_def np_exp_with_exact)
  have m: "np_mul_with (\<lambda>x. x) = np_mul"
    by (intro ext) (rule np_mul_with_exact)
  show ?thesis unfolding soft_nms_step_with_def soft_nms_step_def w m ..
qed

lemma soft_nms_loop_with_exact_Some:
  assumes "soft_nms_loop_with ex rnd sigma thres dets out = Some y"
  shows "ex = (\<lambda>a. Fin (exp a)) \<and> rnd = (\<lambda>x. x) \<longrightarrow> soft_nms_loop sigma thres dets out = Some y"
proof (rule soft_nms_loop_with.raw_induct[where P = "\<lambda>ex rnd sigma thres dets out y.
    ex = (\<lambda>a. Fin (exp a)) \<and> rnd = (\<lambda>x. x) \<longrightarrow> soft_nms_loop sigma thres dets out = Some y",
    OF _ assms])
  fix loop :: "(real \<Rightarrow> npfloat) \<Rightarrow> (real \<Rightarrow> real) \<Rightarrow> real \<Rightarrow> real \<Rightarrow> sdet list \<Rightarrow> sdet list
     \<Rightarrow> sdet list option"
  fix ex rnd sigma thres dets out y
  assume ih: "\<And>ex rnd sigma thres dets out y. loop ex rnd sigma thres dets out = Some y \<Longrightarrow>
     ex = (\<lambda>a. Fin (exp a)) \<and> rnd = (\<lambda>x. x) \<longrightarrow> soft_nms_loop sigma thres dets out = Some y"
    and body: "(if 0 < length dets
      then case soft_nms_step_with ex rnd sigma thres dets of
           (picked, dets') \<Rightarrow> loop ex rnd sigma thres dets' (out @ [picked])
      else Some out) = Some y"
  show "ex = (\<lambda>a. Fin (exp a)) \<and> rnd = (\<lambda>x. x) \<longrightarrow> soft_nms_loop sigma thres dets out = Some y"
  proof
    assume "ex = (\<lambda>a. Fin (exp a)) \<and> rnd = (\<lambda>x. x)"
    then have e: "ex = (\<lambda>a. Fin (exp a))" "rnd = (\<lambda>x. x)" by blast+
    show "soft_nms_loop sigma thres dets out = Some y"
    proof (cases "dets = []")
      case True
      with body show ?thesis by (simp add: soft_nms_loop_Nil)
    next
      case False
      obtain p dets' where st: "soft_nms_step sigma thres dets = (p, dets')"
        by (cases "soft_nms_step sigma thres dets")
      have st': "soft_nms_step_with ex rnd sigma thres dets = (p, dets')"
        unfolding e soft_nms_step_with_exact by (rule st)
      have "loop ex rnd sigma thres dets' (out @ [p]) = Some y"
        using body False unfolding st' by simp
      from ih[OF this] e have "soft_nms_loop sigma thres dets' (out @ [p]) = Some y" by blast
      then show ?thesis using soft_nms_loop_step[OF False st, of out] by simp
    qed
  qed
qed

lemma soft_nms_loop_exact_Some:
  assumes "soft_nms_loop sigma thres dets out = Some y"
  shows "soft_nms_loop_with (\<lambda>a. Fin (exp a)) (\<lambda>x. x) sigma thres dets out = Some y"
proof (rule soft_nms_loop.raw_induct[where P = "\<lambda>sigma thres dets out y.
    soft_nms_loop_with (\<lambda>a. Fin (exp a)) (\<lambda>x. x) sigma thres dets out = Some y", OF _ assms])
  fix loop :: "real \<Rightarrow> real \<Rightarrow> sdet list \<Rightarrow> sdet list \<Rightarrow> sdet list option"
  fix sigma thres dets out y
  assume ih: "\<And>sigma thres dets out y. loop sigma thres dets out = Some y \<Longrightarrow>
     soft_nms_loop_with (\<lambda>a. Fin (exp a)) (\<lambda>x. x) sigma thres dets out = Some y"
    and body: "(if 0 < length dets
      then case soft_nms_step sigma thres dets of
           (picked, dets') \<Rightarrow> loop sigma thres dets' (out @ [picked])
      else Some out) = Some y"
  show "soft_nms_loop_with (\<lambda>a. Fin (exp a)) (\<lambda>x. x) sigma thres dets out = Some y"
  proof (cases "dets = []")
    case True
    with body show ?thesis by (simp add: soft_nms_loop_with_Nil)
  next
    case False
    obtain p dets' where st: "soft_nms_step sigma thres dets = (p, dets')"
      by (cases "soft_nms_step sigma thres dets")
    have st': "soft_nms_step_with (\<lambda>a. Fin (exp a)) (\<lambda>x. x) sigma thres dets = (p, dets')"
      unfolding soft_nms_step_with_exact by (rule st)
    have "loop sigma thres dets' (out @ [p]) = Some y"
      using body False unfolding st by simp
    from ih[OF this]
    have "soft_nms_loop_with (\<lambda>a. Fin (exp a)) (\<lambda>x. x) sigma thres dets' (out @ [p]) = Some y" .
    then show ?thesis
      using soft_nms_loop_with_step[OF False st', of out] by simp
  qed
qed

lemma soft_nms_with_exact:
  "soft_nms_with (\<lambda>a. Fin (exp a)) (\<lambda>x. x) dets sigma thres = soft_nms dets sigma thres"
proof (cases "soft_nms_loop sigma thres dets []")
  case None
  have "soft_nms_loop_with (\<lambda>a. Fin (exp a)) (\<lambda>x. x) sigma thres dets [] = None"
  proof (cases "soft_nms_loop_with (\<lambda>a. Fin (exp a)) (\<lambda>x. x) sigma thres dets []")
    case None
    then show ?thesis .
  next
    case (Some y)
    from soft_nms_loop_with_exact_Some[OF this] None show ?thesis by simp
  qed
  with None show ?thesis by (simp add: soft_nms_with_def soft_nms_def)
next
  case (Some y)
  from soft_nms_loop_exact_Some[OF this] Some show ?thesis
    by (simp add: soft_nms_with_def soft_nms_def)
qed

end
